theory Spec2Isabelle
  imports Complex_Main
begin

section \<open>Strings, cell values and the library interface\<close>

text \<open>
  A Python \<open>str\<close> is a sequence of Unicode code points, so text is a list of code points
  (natural numbers).  \<open>lit\<close> turns an Isabelle string literal (whose characters are the
  code points 0..255) into such a text.
\<close>

type_synonym cp = nat
type_synonym ustr = "cp list"

definition lit :: "string \<Rightarrow> ustr" where
  "lit s = map of_char s"

text \<open>
  A cell value (\<open>valor\<close>): missing (\<open>None\<close>/\<open>NaN\<close>, what \<open>pd.isna\<close> accepts), a
  \<open>str\<close>, or a number of the numeric carrier \<open>'f\<close>.
\<close>

datatype 'f pyval = Null | Str ustr | Num 'f

text \<open>
  The script calls into \<open>unicodedata\<close>, \<open>re\<close>, \<open>str\<close> and pandas.  What these
  libraries contribute is table data (the Unicode character database), float64
  arithmetic and the printing of a missing value, which differs between the missing
  values (\<open>None\<close>, \<open>NaN\<close>) and between the versions of pandas; it is taken as a
  parameter, so every theorem below holds for each version of the libraries:
  \<^item> \<open>nfkd\<close>: \<open>unicodedata.normalize('NFKD', s)\<close>;
  \<^item> \<open>is_mn\<close>: \<open>unicodedata.category(ch) == 'Mn'\<close>;
  \<^item> \<open>re_digit\<close>: the class \<open>\d\<close> of \<open>re\<close> on \<open>str\<close> patterns (Unicode decimal digits);
  \<^item> \<open>re_space\<close>: the class \<open>\s\<close> of \<open>re\<close>, which is also what \<open>str.strip()\<close> removes;
  \<^item> \<open>str_lower\<close>: \<open>str.lower()\<close>;
  \<^item> \<open>num_str\<close>: \<open>str(x)\<close> of a number;
  \<^item> \<open>to_numeric\<close>: \<open>pd.to_numeric(., errors='coerce')\<close> on one text, \<open>None\<close> being
    \<open>NaN\<close>;
  \<^item> \<open>round2\<close>: \<open>.round(2)\<close>; \<open>format2\<close>: \<open>f"{x:.2f}"\<close>;
  \<^item> \<open>na_str\<close>: \<open>str(valor)\<close> of a missing value (\<open>nan\<close> for \<open>NaN\<close>, \<open>None\<close> for
    \<open>None\<close>);
  \<^item> \<open>astype_na\<close>: what \<open>astype(str)\<close> makes of a missing cell, either a text (pandas 2
    prints \<open>NaN\<close> as \<open>nan\<close> and \<open>None\<close> as \<open>None\<close>) or, with \<open>None\<close>, a cell that is
    still missing (pandas 3).
\<close>

record 'f pylib =
  nfkd :: "ustr \<Rightarrow> ustr"
  is_mn :: "cp \<Rightarrow> bool"
  re_digit :: "cp \<Rightarrow> bool"
  re_space :: "cp \<Rightarrow> bool"
  str_lower :: "ustr \<Rightarrow> ustr"
  num_str :: "'f \<Rightarrow> ustr"
  to_numeric :: "ustr \<Rightarrow> 'f option"
  round2 :: "'f \<Rightarrow> 'f"
  format2 :: "'f \<Rightarrow> ustr"
  na_str :: ustr
  astype_na :: "ustr option"

text \<open>\<open>pd.isna(valor)\<close> and \<open>str(valor)\<close>.\<close>

fun isna :: "'f pyval \<Rightarrow> bool" where
  "isna Null = True"
| "isna (Str s) = False"
| "isna (Num x) = False"

fun py_str :: "'f pylib \<Rightarrow> 'f pyval \<Rightarrow> ustr" where
  "py_str L (Str s) = s"
| "py_str L (Num x) = num_str L x"
| "py_str L Null = na_str L"

text \<open>The ASCII classes that the patterns of the script spell out.\<close>

definition ascii_digit :: "cp \<Rightarrow> bool" where
  "ascii_digit c = (48 \<le> c \<and> c \<le> 57)"

definition ascii_upper :: "cp \<Rightarrow> bool" where
  "ascii_upper c = (65 \<le> c \<and> c \<le> 90)"

definition ascii_lower :: "cp \<Rightarrow> bool" where
  "ascii_lower c = (97 \<le> c \<and> c \<le> 122)"

definition ascii_letter :: "cp \<Rightarrow> bool" where
  "ascii_letter c = (ascii_upper c \<or> ascii_lower c)"

definition is_x :: "cp \<Rightarrow> bool" where
  "is_x c = (c = 120 \<or> c = 88)"

text \<open>\<open>str.strip()\<close>: whitespace is removed at both ends.\<close>

definition strip :: "(cp \<Rightarrow> bool) \<Rightarrow> ustr \<Rightarrow> ustr" where
  "strip sp s = rev (dropWhile sp (rev (dropWhile sp s)))"

section \<open>corrigir\_mojibake\<close>

text \<open>
  \<open>re.search(r'[\<dots>]', texto)\<close>: the class of line 31 holds the three code points U+00C3,
  U+00C2 and U+0020.
\<close>

definition mojibake_marker :: "cp \<Rightarrow> bool" where
  "mojibake_marker c = (c = 195 \<or> c = 194 \<or> c = 32)"

definition search_marker :: "ustr \<Rightarrow> bool" where
  "search_marker texto = list_ex mojibake_marker texto"

text \<open>
  \<open>texto.encode('latin1')\<close>: one byte per code point; a code point above 255 raises
  \<open>UnicodeEncodeError\<close> (\<open>None\<close>).  Bytes are natural numbers below 256.
\<close>

definition encode_latin1 :: "ustr \<Rightarrow> nat list option" where
  "encode_latin1 texto = (if list_all (\<lambda>c. c < 256) texto then Some texto else None)"

text \<open>
  \<open>bytes.decode('utf-8')\<close>, strict: a lead byte fixes the length of the sequence, the
  second byte is restricted so that overlong forms, surrogates and values above U+10FFFF
  are refused, and every malformed or truncated sequence raises \<open>UnicodeDecodeError\<close>
  (\<open>None\<close>).
\<close>

definition is_cont :: "nat \<Rightarrow> bool" where
  "is_cont b = (128 \<le> b \<and> b \<le> 191)"

definition second3 :: "nat \<Rightarrow> nat \<Rightarrow> bool" where
  "second3 b0 b1 =
     (if b0 = 224 then 160 \<le> b1 \<and> b1 \<le> 191
      else if b0 = 237 then 128 \<le> b1 \<and> b1 \<le> 159
      else is_cont b1)"

definition second4 :: "nat \<Rightarrow> nat \<Rightarrow> bool" where
  "second4 b0 b1 =
     (if b0 = 240 then 144 \<le> b1 \<and> b1 \<le> 191
      else if b0 = 244 then 128 \<le> b1 \<and> b1 \<le> 143
      else is_cont b1)"

fun decode_utf8 :: "nat list \<Rightarrow> ustr option" where
  "decode_utf8 [] = Some []"
| "decode_utf8 (b0 # bs) =
     (if b0 < 128 then map_option ((#) b0) (decode_utf8 bs)
      else if 194 \<le> b0 \<and> b0 \<le> 223 then
        (case bs of
           b1 # r \<Rightarrow>
             if is_cont b1
             then map_option ((#) ((b0 - 192) * 64 + (b1 - 128))) (decode_utf8 r)
             else None
         | _ \<Rightarrow> None)
      else if 224 \<le> b0 \<and> b0 \<le> 239 then
        (case bs of
           b1 # b2 # r \<Rightarrow>
             if second3 b0 b1 \<and> is_cont b2
             then map_option
                    ((#) ((b0 - 224) * 4096 + (b1 - 128) * 64 + (b2 - 128)))
                    (decode_utf8 r)
             else None
         | _ \<Rightarrow> None)
      else if 240 \<le> b0 \<and> b0 \<le> 244 then
        (case bs of
           b1 # b2 # b3 # r \<Rightarrow>
             if second4 b0 b1 \<and> is_cont b2 \<and> is_cont b3
             then map_option
                    ((#) ((b0 - 240) * 262144 + (b1 - 128) * 4096 + (b2 - 128) * 64
                          + (b3 - 128)))
                    (decode_utf8 r)
             else None
         | _ \<Rightarrow> None)
      else None)"

text \<open>
  Lines 31 to 36 on a \<open>str\<close>: both exceptions are caught by \<open>except Exception\<close>, which
  returns the text as it came.
\<close>

definition mojibake_text :: "ustr \<Rightarrow> ustr" where
  "mojibake_text texto =
     (if search_marker texto then
        (case encode_latin1 texto of
           None \<Rightarrow> texto
         | Some b \<Rightarrow> (case decode_utf8 b of None \<Rightarrow> texto | Some t \<Rightarrow> t))
      else texto)"

text \<open>Lines 29 and 30: a value that is not a \<open>str\<close> is returned as it is.\<close>

fun corrigir_mojibake :: "'f pyval \<Rightarrow> 'f pyval" where
  "corrigir_mojibake (Str s) = Str (mojibake_text s)"
| "corrigir_mojibake v = v"

section \<open>remover\_acentos\<close>

definition acentos_text :: "'f pylib \<Rightarrow> ustr \<Rightarrow> ustr" where
  "acentos_text L texto = filter (\<lambda>ch. \<not> is_mn L ch) (nfkd L texto)"

fun remover_acentos :: "'f pylib \<Rightarrow> 'f pyval \<Rightarrow> 'f pyval" where
  "remover_acentos L (Str s) = Str (acentos_text L s)"
| "remover_acentos L v = v"

section \<open>The substitutions of limpar\_texto\<close>

text \<open>
  \<open>re.sub\<close> replaces the leftmost match, goes on after it and never looks back, so
  matches do not overlap.  Each pattern of the script gets a function of its own.

  Line 59, \<open>re.sub(r'(\d),(\d)', r'\1.\2', texto)\<close>.
\<close>

fun sub_decimal_comma :: "(cp \<Rightarrow> bool) \<Rightarrow> ustr \<Rightarrow> ustr" where
  "sub_decimal_comma d (a # b # c # r) =
     (if d a \<and> b = 44 \<and> d c then a # 46 # c # sub_decimal_comma d r
      else a # sub_decimal_comma d (b # c # r))"
| "sub_decimal_comma d s = s"

text \<open>
  Lines 74 to 76 and 84, 85: \<open>re.sub(r'(P)(Q)', r'\1 \2', texto)\<close> for two one-character
  classes \<open>P\<close> and \<open>Q\<close>.
\<close>

fun sub_pair :: "(cp \<Rightarrow> bool) \<Rightarrow> (cp \<Rightarrow> bool) \<Rightarrow> ustr \<Rightarrow> ustr" where
  "sub_pair P Q (a # b # r) =
     (if P a \<and> Q b then a # 32 # b # sub_pair P Q r
      else a # sub_pair P Q (b # r))"
| "sub_pair P Q s = s"

text \<open>Lines 68, 73 and 83: \<open>re.sub(r'\s+', ' ', texto)\<close>.\<close>

function collapse_ws :: "(cp \<Rightarrow> bool) \<Rightarrow> ustr \<Rightarrow> ustr" where
  "collapse_ws sp [] = []"
| "collapse_ws sp (c # cs) =
     (if sp c then 32 # collapse_ws sp (dropWhile sp cs) else c # collapse_ws sp cs)"
  by pat_completeness auto
termination
  by (relation "measure (\<lambda>(sp, s). length s)")
     (auto simp: less_Suc_eq_le length_dropWhile_le)

text \<open>
  Lines 81 and 86: \<open>re.sub(r'\s*_\s*', '_', texto)\<close>.  \<open>match_us\<close> matches the pattern at
  the start of a text and returns what follows the match: the greedy \<open>\s*\<close> first takes
  one more character and gives it back when the rest does not match.
\<close>

fun match_us :: "(cp \<Rightarrow> bool) \<Rightarrow> ustr \<Rightarrow> ustr option" where
  "match_us sp [] = None"
| "match_us sp (c # cs) =
     (if sp c then
        (case match_us sp cs of
           Some r \<Rightarrow> Some r
         | None \<Rightarrow> if c = 95 then Some (dropWhile sp cs) else None)
      else if c = 95 then Some (dropWhile sp cs) else None)"

lemma match_us_shorter: "match_us sp s = Some r \<Longrightarrow> length r < length s"
proof (induction s arbitrary: r)
  case Nil
  then show ?case by simp
next
  case (Cons c cs)
  have d: "length (dropWhile sp cs) < Suc (length cs)"
    by (simp add: less_Suc_eq_le length_dropWhile_le)
  show ?case
  proof (cases "match_us sp cs")
    case None
    with Cons.prems have "r = dropWhile sp cs"
      by (auto split: if_splits)
    with d show ?thesis by simp
  next
    case (Some r')
    then have "length r' < length cs"
      by (rule Cons.IH)
    moreover from Some Cons.prems have "r = r' \<or> r = dropWhile sp cs"
      by (auto split: if_splits)
    ultimately show ?thesis
      using d by auto
  qed
qed

function sub_us :: "(cp \<Rightarrow> bool) \<Rightarrow> ustr \<Rightarrow> ustr" where
  "sub_us sp [] = []"
| "sub_us sp (c # cs) =
     (case match_us sp (c # cs) of
        Some r \<Rightarrow> 95 # sub_us sp r
      | None \<Rightarrow> c # sub_us sp cs)"
  by pat_completeness auto
termination
  by (relation "measure (\<lambda>(sp, s). length s)")
     (auto simp del: match_us.simps dest: match_us_shorter)

text \<open>
  Lines 69 and 77: \<open>re.sub(r'(\d)\s*[xX]\s*(\d)', r'\1x\2', texto)\<close>.  \<open>match_sp_digit\<close>
  matches \<open>\s*(\d)\<close> and \<open>match_x\<close> matches \<open>\s*[xX]\s*(\d)\<close> at the start of a text;
  both return the digit and what follows the match.
\<close>

fun match_sp_digit :: "(cp \<Rightarrow> bool) \<Rightarrow> (cp \<Rightarrow> bool) \<Rightarrow> ustr \<Rightarrow> (cp \<times> ustr) option" where
  "match_sp_digit d sp [] = None"
| "match_sp_digit d sp (c # cs) =
     (if sp c then
        (case match_sp_digit d sp cs of
           Some m \<Rightarrow> Some m
         | None \<Rightarrow> if d c then Some (c, cs) else None)
      else if d c then Some (c, cs) else None)"

fun match_x :: "(cp \<Rightarrow> bool) \<Rightarrow> (cp \<Rightarrow> bool) \<Rightarrow> ustr \<Rightarrow> (cp \<times> ustr) option" where
  "match_x d sp [] = None"
| "match_x d sp (c # cs) =
     (if sp c then
        (case match_x d sp cs of
           Some m \<Rightarrow> Some m
         | None \<Rightarrow> if is_x c then match_sp_digit d sp cs else None)
      else if is_x c then match_sp_digit d sp cs else None)"

lemma match_sp_digit_shorter:
  "match_sp_digit d sp s = Some (e, r) \<Longrightarrow> length r < length s"
  by (induction s arbitrary: e r) (auto split: if_splits option.splits simp: less_Suc_eq)

lemma match_x_shorter: "match_x d sp s = Some (e, r) \<Longrightarrow> length r < length s"
  by (induction s arbitrary: e r)
     (auto split: if_splits option.splits simp: less_Suc_eq dest: match_sp_digit_shorter)

function sub_x :: "(cp \<Rightarrow> bool) \<Rightarrow> (cp \<Rightarrow> bool) \<Rightarrow> ustr \<Rightarrow> ustr" where
  "sub_x d sp [] = []"
| "sub_x d sp (c # cs) =
     (if d c then
        (case match_x d sp cs of
           Some (e, r) \<Rightarrow> c # 120 # e # sub_x d sp r
         | None \<Rightarrow> c # sub_x d sp cs)
      else c # sub_x d sp cs)"
  by pat_completeness auto
termination
  by (relation "measure (\<lambda>(d, sp, s). length s)")
     (auto dest: match_x_shorter simp: less_Suc_eq)

text \<open>
  Line 66, \<open>re.fullmatch(r'.*_\d+[xX]\d+', texto)\<close>: the dot matches every character but
  the line feed.  \<open>all_digits\<close> is \<open>\d+\<close> up to the end of the text, \<open>digits_x_digits\<close>
  is \<open>\d*[xX]\d+\<close> and \<open>size_tail\<close> is \<open>\d+[xX]\d+\<close>.
\<close>

definition all_digits :: "(cp \<Rightarrow> bool) \<Rightarrow> ustr \<Rightarrow> bool" where
  "all_digits d s = (s \<noteq> [] \<and> list_all d s)"

fun digits_x_digits :: "(cp \<Rightarrow> bool) \<Rightarrow> ustr \<Rightarrow> bool" where
  "digits_x_digits d [] = False"
| "digits_x_digits d (c # cs) =
     ((is_x c \<and> all_digits d cs) \<or> (d c \<and> digits_x_digits d cs))"

fun size_tail :: "(cp \<Rightarrow> bool) \<Rightarrow> ustr \<Rightarrow> bool" where
  "size_tail d [] = False"
| "size_tail d (c # cs) = (d c \<and> digits_x_digits d cs)"

fun size_fullmatch :: "(cp \<Rightarrow> bool) \<Rightarrow> ustr \<Rightarrow> bool" where
  "size_fullmatch d [] = False"
| "size_fullmatch d (c # cs) =
     ((c = 95 \<and> size_tail d cs) \<or> (c \<noteq> 10 \<and> size_fullmatch d cs))"

text \<open>
  The character classes that lines 64, 67, 72 and 82 keep: \<open>re.sub(r'[^\<dots>]+', '', texto)\<close>
  deletes every run of characters outside the class, which is a filter.
\<close>

definition keep_price :: "cp \<Rightarrow> bool" where
  "keep_price c = (ascii_digit c \<or> c = 46 \<or> c = 45)"

definition keep_size :: "cp \<Rightarrow> bool" where
  "keep_size c = (ascii_letter c \<or> ascii_digit c \<or> c = 95 \<or> is_x c \<or> c = 32)"

definition keep_prod :: "cp \<Rightarrow> bool" where
  "keep_prod c = (ascii_letter c \<or> ascii_digit c \<or> c = 32)"

definition keep_cli :: "cp \<Rightarrow> bool" where
  "keep_cli c = (ascii_letter c \<or> ascii_digit c \<or> c = 95 \<or> c = 32)"

text \<open>Line 63: \<open>nome_coluna and nome_coluna.lower() == "preco"\<close>.\<close>

fun coluna_preco :: "'f pylib \<Rightarrow> ustr option \<Rightarrow> bool" where
  "coluna_preco L None = False"
| "coluna_preco L (Some n) = (n \<noteq> [] \<and> str_lower L n = lit ''preco'')"

section \<open>limpar\_texto\<close>

text \<open>Lines 56 to 59: what every text goes through before the context is looked at.\<close>

definition preparar :: "'f pylib \<Rightarrow> ustr \<Rightarrow> ustr" where
  "preparar L texto =
     sub_decimal_comma (re_digit L) (acentos_text L (mojibake_text texto))"

text \<open>Lines 64 and 65.\<close>

definition regra_preco :: "'f pylib \<Rightarrow> ustr \<Rightarrow> ustr" where
  "regra_preco L texto = strip (re_space L) (filter keep_price texto)"

text \<open>Lines 67 to 70.\<close>

definition regra_tamanho :: "'f pylib \<Rightarrow> ustr \<Rightarrow> ustr" where
  "regra_tamanho L texto =
     sub_x (re_digit L) (re_space L)
       (strip (re_space L) (collapse_ws (re_space L) (filter keep_size texto)))"

text \<open>Lines 71 to 78.\<close>

definition regra_produto :: "'f pylib \<Rightarrow> ustr \<Rightarrow> ustr" where
  "regra_produto L texto =
     (let t1 = map (\<lambda>c. if c = 95 then 32 else c) texto;
          t2 = filter keep_prod t1;
          t3 = strip (re_space L) (collapse_ws (re_space L) t2);
          t4 = sub_pair ascii_lower ascii_upper t3;
          t5 = sub_pair ascii_letter (re_digit L) t4;
          t6 = sub_pair (re_digit L) ascii_letter t5;
          t7 = sub_x (re_digit L) (re_space L) t6
      in strip (re_space L) t7)"

text \<open>Lines 81 to 87.\<close>

definition regra_cliente :: "'f pylib \<Rightarrow> ustr \<Rightarrow> ustr" where
  "regra_cliente L texto =
     (let t1 = sub_us (re_space L) texto;
          t2 = filter keep_cli t1;
          t3 = strip (re_space L) (collapse_ws (re_space L) t2);
          t4 = sub_pair ascii_letter (re_digit L) t3;
          t5 = sub_pair (re_digit L) ascii_letter t4;
          t6 = sub_us (re_space L) t5
      in strip (re_space L) t6)"

text \<open>Lines 61 to 87: the branching on the context and on the column name.\<close>

definition aplicar_regras :: "'f pylib \<Rightarrow> ustr \<Rightarrow> ustr option \<Rightarrow> ustr \<Rightarrow> ustr" where
  "aplicar_regras L contexto nome_coluna texto =
     (if contexto = lit ''produtos'' then
        (if coluna_preco L nome_coluna then regra_preco L texto
         else if size_fullmatch (re_digit L) texto then regra_tamanho L texto
         else regra_produto L texto)
      else regra_cliente L texto)"

definition limpar_texto :: "'f pylib \<Rightarrow> 'f pyval \<Rightarrow> ustr \<Rightarrow> ustr option \<Rightarrow> 'f pyval" where
  "limpar_texto L valor contexto nome_coluna =
     (if isna valor then valor
      else Str (aplicar_regras L contexto nome_coluna (preparar L (py_str L valor))))"

section \<open>Columns and tables\<close>

text \<open>
  A pandas column has a dtype: an object column holds arbitrary cell values, a numeric
  column (int64, float64) holds numbers with \<open>NaN\<close> (\<open>None\<close>) for a missing one.  A table
  is the list of its named columns, in order.
\<close>

datatype 'f column = ObjCol "'f pyval list" | NumCol "'f option list"

type_synonym 'f table = "(ustr \<times> 'f column) list"

datatype erro = ValueError | AttributeError

text \<open>The cells of a column as values, whatever its dtype.\<close>

fun celulas :: "'f column \<Rightarrow> 'f pyval list" where
  "celulas (ObjCol vs) = vs"
| "celulas (NumCol xs) = map (\<lambda>x. case x of None \<Rightarrow> Null | Some v \<Rightarrow> Num v) xs"

text \<open>
  \<open>col.astype(str)\<close>: every cell that is not missing becomes its text \<open>str(valor)\<close>; a
  missing cell becomes what the library makes of it, a text or again a missing cell
  (\<open>None\<close>).
\<close>

definition astype_str :: "'f pylib \<Rightarrow> 'f column \<Rightarrow> ustr option list" where
  "astype_str L col =
     map (\<lambda>v. if isna v then astype_na L else Some (py_str L v)) (celulas col)"

section \<open>expandir\_coluna\_csv\_embutido\<close>

text \<open>
  \<open>s.split(',', n)\<close> with at most \<open>n\<close> splits, and \<open>s.split(',')\<close> with no limit (a text has
  fewer commas than its length plus one).
\<close>

fun split_n :: "nat \<Rightarrow> ustr \<Rightarrow> ustr list" where
  "split_n 0 s = [s]"
| "split_n (Suc n) s =
     (if 44 \<in> set s
      then takeWhile (\<lambda>c. c \<noteq> 44) s # split_n n (tl (dropWhile (\<lambda>c. c \<noteq> 44) s))
      else [s])"

definition split_all :: "ustr \<Rightarrow> ustr list" where
  "split_all s = split_n (length s) s"

text \<open>
  \<open>serie.str.split(',', n=\<dots>, expand=True)\<close>: a text is split into the list of its parts,
  and a missing cell has no parts (\<open>None\<close>).  The frame is as wide as the longest list
  of parts, a missing row counting for one column (the frame has no column when there
  is no row); a shorter row is filled with \<open>None\<close>, and a missing row is missing in
  every column.  \<open>expand\<close> gives the cells of column \<open>j\<close>.
\<close>

definition largura :: "ustr list option list \<Rightarrow> nat" where
  "largura partes =
     foldr (\<lambda>p m. max (case p of None \<Rightarrow> 1 | Some ps \<Rightarrow> length ps) m) partes 0"

definition campo :: "nat \<Rightarrow> ustr list option \<Rightarrow> 'f pyval" where
  "campo j p =
     (case p of
        None \<Rightarrow> Null
      | Some ps \<Rightarrow> if j < length ps then Str (ps ! j) else Null)"

definition expand :: "ustr list option list \<Rightarrow> nat \<Rightarrow> 'f column" where
  "expand partes j = ObjCol (map (campo j) partes)"

text \<open>
  Lines 95 to 115.  \<open>dados.columns = cabecalho\<close> raises \<open>ValueError\<close> when the frame does
  not have as many columns as there are names; on line 112 \<open>h.strip()\<close> raises
  \<open>AttributeError\<close> for a header cell that is \<open>None\<close>.
\<close>

definition primeira_estrategia :: "'f pylib \<Rightarrow> ustr \<Rightarrow> 'f column \<Rightarrow> erro + 'f table" where
  "primeira_estrategia L nome_col col =
     (let cabecalho = map (strip (re_space L)) (split_all nome_col);
          partes = map (map_option (split_n (length cabecalho - 1))) (astype_str L col)
      in if largura partes \<noteq> length cabecalho then Inl ValueError
         else Inr (map (\<lambda>j. (cabecalho ! j, expand partes j)) [0..<length cabecalho]))"

definition segunda_estrategia :: "'f pylib \<Rightarrow> ustr \<Rightarrow> 'f column \<Rightarrow> erro + 'f table" where
  "segunda_estrategia L nome_col col =
     (let primeiro = (case celulas col of [] \<Rightarrow> [] | v # _ \<Rightarrow> py_str L v)
      in if 44 \<in> set primeiro then
           (let todas = astype_str L col;
                temp = map (map_option split_all) todas;
                w = largura temp;
                header = map (\<lambda>j. campo j (hd temp) :: 'f pyval) [0..<w]
            in if 1 < length header then
                 (if list_ex isna header then Inl AttributeError
                  else Inr (map (\<lambda>j. (strip (re_space L) (py_str L (header ! j)),
                                        expand (tl temp) j)) [0..<w]))
               else Inr [(nome_col, col)])
         else Inr [(nome_col, col)])"

definition expandir_coluna_csv_embutido :: "'f pylib \<Rightarrow> 'f table \<Rightarrow> erro + 'f table" where
  "expandir_coluna_csv_embutido L df =
     (case df of
        [(nome_col, col)] \<Rightarrow>
          if 44 \<in> set nome_col then primeira_estrategia L nome_col col
          else segunda_estrategia L nome_col col
      | _ \<Rightarrow> Inr df)"

section \<open>tentar\_converter\_numerico\<close>

text \<open>
  Line 132, \<open>str.match(r'^-?\d+(\.\d+)?$')\<close>: \<open>$\<close> matches at the end of the text and
  before a line feed that ends it.  \<open>frac_rest\<close> is \<open>\d*$\<close>, \<open>num_after\<close> is
  \<open>\d*(\.\d+)?$\<close> and \<open>num_body\<close> is \<open>\d+(\.\d+)?$\<close>.
\<close>

fun frac_rest :: "(cp \<Rightarrow> bool) \<Rightarrow> ustr \<Rightarrow> bool" where
  "frac_rest d [] = True"
| "frac_rest d (c # cs) = ((d c \<and> frac_rest d cs) \<or> (c = 10 \<and> cs = []))"

fun num_after :: "(cp \<Rightarrow> bool) \<Rightarrow> ustr \<Rightarrow> bool" where
  "num_after d [] = True"
| "num_after d (c # cs) =
     ((d c \<and> num_after d cs)
      \<or> (c = 46 \<and> (case cs of [] \<Rightarrow> False | e # es \<Rightarrow> d e \<and> frac_rest d es))
      \<or> (c = 10 \<and> cs = []))"

fun num_body :: "(cp \<Rightarrow> bool) \<Rightarrow> ustr \<Rightarrow> bool" where
  "num_body d [] = False"
| "num_body d (c # cs) = (d c \<and> num_after d cs)"

fun padrao_numerico :: "(cp \<Rightarrow> bool) \<Rightarrow> ustr \<Rightarrow> bool" where
  "padrao_numerico d [] = False"
| "padrao_numerico d (c # cs) = ((c = 45 \<and> num_body d cs) \<or> num_body d (c # cs))"

text \<open>Line 131, \<open>str.replace(',', '.', regex=False)\<close>.\<close>

definition virgula_ponto :: "ustr \<Rightarrow> ustr" where
  "virgula_ponto s = map (\<lambda>c. if c = 44 then 46 else c) s"

text \<open>Lines 124 and 135: \<open>contexto == "produtos" and nome_coluna.lower() == "preco"\<close>.\<close>

definition preco_produtos :: "'f pylib \<Rightarrow> ustr \<Rightarrow> ustr \<Rightarrow> bool" where
  "preco_produtos L contexto nome_coluna =
     (contexto = lit ''produtos'' \<and> str_lower L nome_coluna = lit ''preco'')"

text \<open>
  \<open>.round(2).map(lambda x: f"{x:.2f}" if pd.notna(x) else "")\<close> on one cell of a numeric
  column.
\<close>

fun duas_casas :: "'f pylib \<Rightarrow> 'f option \<Rightarrow> 'f pyval" where
  "duas_casas L None = Str []"
| "duas_casas L (Some x) = Str (format2 L (round2 L x))"

text \<open>Lines 128 to 134: the texts that are tested, and the column of numbers.\<close>

definition nao_nulos :: "'f pylib \<Rightarrow> 'f pyval list \<Rightarrow> ustr list" where
  "nao_nulos L vs = map (\<lambda>v. virgula_ponto (py_str L v)) (filter (\<lambda>v. \<not> isna v) vs)"

definition col_num :: "'f pylib \<Rightarrow> 'f pyval list \<Rightarrow> 'f option list" where
  "col_num L vs =
     map (\<lambda>v. if isna v then None else to_numeric L (virgula_ponto (py_str L v))) vs"

fun tentar_converter_numerico :: "'f pylib \<Rightarrow> 'f column \<Rightarrow> ustr \<Rightarrow> ustr \<Rightarrow> 'f column" where
  "tentar_converter_numerico L (NumCol xs) contexto nome_coluna =
     (if preco_produtos L contexto nome_coluna then ObjCol (map (duas_casas L) xs)
      else NumCol xs)"
| "tentar_converter_numerico L (ObjCol vs) contexto nome_coluna =
     (if nao_nulos L vs = [] then ObjCol vs
      else if list_all (padrao_numerico (re_digit L)) (nao_nulos L vs) then
        (if preco_produtos L contexto nome_coluna
         then ObjCol (map (duas_casas L) (col_num L vs))
         else NumCol (col_num L vs))
      else ObjCol vs)"

section \<open>The final formatting of the price column\<close>

text \<open>
  \<open>pd.to_numeric(col, errors='coerce')\<close> on a whole column: a cell that is not read as a
  number becomes \<open>NaN\<close>.
\<close>

fun to_numeric_cell :: "'f pylib \<Rightarrow> 'f pyval \<Rightarrow> 'f option" where
  "to_numeric_cell L Null = None"
| "to_numeric_cell L (Str s) = to_numeric L s"
| "to_numeric_cell L (Num x) = Some x"

fun to_numeric_col :: "'f pylib \<Rightarrow> 'f column \<Rightarrow> 'f option list" where
  "to_numeric_col L (NumCol xs) = xs"
| "to_numeric_col L (ObjCol vs) = map (to_numeric_cell L) vs"

text \<open>
  Lines 186 to 190.  \<open>next(c for c in df.columns if c.lower() == "preco")\<close> is the first
  such column, and the assignment replaces it.
\<close>

fun formatar_primeira :: "'f pylib \<Rightarrow> 'f table \<Rightarrow> 'f table" where
  "formatar_primeira L [] = []"
| "formatar_primeira L ((nome, col) # df) =
     (if str_lower L nome = lit ''preco''
      then (nome, ObjCol (map (duas_casas L) (to_numeric_col L col))) # df
      else (nome, col) # formatar_primeira L df)"

definition formatacao_final :: "'f pylib \<Rightarrow> ustr \<Rightarrow> 'f table \<Rightarrow> 'f table" where
  "formatacao_final L contexto df =
     (if contexto = lit ''produtos''
         \<and> lit ''preco'' \<in> set (map (\<lambda>(c, _). str_lower L c) df)
      then formatar_primeira L df else df)"

section \<open>A sample of the library\<close>

text \<open>
  To run the definitions on concrete inputs the library interface is instantiated with
  the data of Unicode 14 (CPython 3.11):
  \<^item> \<open>sample_digit\<close> and \<open>sample_space\<close> are the complete classes \<open>\d\<close> and \<open>\s\<close>;
  \<^item> \<open>sample_nfkd\<close>, \<open>sample_mn\<close> and \<open>sample_lower\<close> are exact on texts of the blocks
    Basic Latin and Latin-1 Supplement (and on the decimal digits of other scripts, which
    have no decomposition and no case); other code points are left as they are;
  \<^item> numbers are finite decimals: \<open>sample_to_numeric\<close> reads a plain signed decimal
    literal exactly and takes every other text as not a number, rounding is to the
    nearest hundredth, ties to even, so the binary rounding of float64 is left out.
\<close>

definition in_ranges :: "(nat \<times> nat) list \<Rightarrow> nat \<Rightarrow> bool" where
  "in_ranges rs c = list_ex (\<lambda>(a, b). a \<le> c \<and> c \<le> b) rs"

definition nd_ranges :: "(nat \<times> nat) list" where
  "nd_ranges =
     [(48, 57), (1632, 1641), (1776, 1785), (1984, 1993), (2406, 2415), (2534, 2543),
      (2662, 2671), (2790, 2799), (2918, 2927), (3046, 3055), (3174, 3183),
      (3302, 3311), (3430, 3439), (3558, 3567), (3664, 3673), (3792, 3801),
      (3872, 3881), (4160, 4169), (4240, 4249), (6112, 6121), (6160, 6169),
      (6470, 6479), (6608, 6617), (6784, 6793), (6800, 6809), (6992, 7001),
      (7088, 7097), (7232, 7241), (7248, 7257), (42528, 42537), (43216, 43225),
      (43264, 43273), (43472, 43481), (43504, 43513), (43600, 43609), (44016, 44025),
      (65296, 65305), (66720, 66729), (68912, 68921), (69734, 69743), (69872, 69881),
      (69942, 69951), (70096, 70105), (70384, 70393), (70736, 70745), (70864, 70873),
      (71248, 71257), (71360, 71369), (71472, 71481), (71904, 71913), (72016, 72025),
      (72784, 72793), (73040, 73049), (73120, 73129), (92768, 92777), (92864, 92873),
      (93008, 93017), (120782, 120831), (123200, 123209), (123632, 123641),
      (125264, 125273), (130032, 130041)]"

definition sample_digit :: "cp \<Rightarrow> bool" where
  "sample_digit c = (if c < 128 then ascii_digit c else in_ranges nd_ranges c)"

definition space_ranges :: "(nat \<times> nat) list" where
  "space_ranges =
     [(9, 13), (28, 32), (133, 133), (160, 160), (5760, 5760), (8192, 8202),
      (8232, 8233), (8239, 8239), (8287, 8287), (12288, 12288)]"

definition sample_space :: "cp \<Rightarrow> bool" where
  "sample_space c = in_ranges space_ranges c"

definition sample_mn :: "cp \<Rightarrow> bool" where
  "sample_mn c = (768 \<le> c \<and> c \<le> 879)"

definition latin1_nfkd :: "(cp \<times> ustr) list" where
  "latin1_nfkd =
     [(160, [32]), (168, [32, 776]), (170, [97]), (175, [32, 772]), (178, [50]),
      (179, [51]), (180, [32, 769]), (181, [956]), (184, [32, 807]), (185, [49]),
      (186, [111]), (188, [49, 8260, 52]), (189, [49, 8260, 50]),
      (190, [51, 8260, 52]), (192, [65, 768]), (193, [65, 769]), (194, [65, 770]),
      (195, [65, 771]), (196, [65, 776]), (197, [65, 778]), (199, [67, 807]),
      (200, [69, 768]), (201, [69, 769]), (202, [69, 770]), (203, [69, 776]),
      (204, [73, 768]), (205, [73, 769]), (206, [73, 770]), (207, [73, 776]),
      (209, [78, 771]), (210, [79, 768]), (211, [79, 769]), (212, [79, 770]),
      (213, [79, 771]), (214, [79, 776]), (217, [85, 768]), (218, [85, 769]),
      (219, [85, 770]), (220, [85, 776]), (221, [89, 769]), (224, [97, 768]),
      (225, [97, 769]), (226, [97, 770]), (227, [97, 771]), (228, [97, 776]),
      (229, [97, 778]), (231, [99, 807]), (232, [101, 768]), (233, [101, 769]),
      (234, [101, 770]), (235, [101, 776]), (236, [105, 768]), (237, [105, 769]),
      (238, [105, 770]), (239, [105, 776]), (241, [110, 771]), (242, [111, 768]),
      (243, [111, 769]), (244, [111, 770]), (245, [111, 771]), (246, [111, 776]),
      (249, [117, 768]), (250, [117, 769]), (251, [117, 770]), (252, [117, 776]),
      (253, [121, 769]), (255, [121, 776])]"

definition sample_nfkd :: "ustr \<Rightarrow> ustr" where
  "sample_nfkd s =
     concat (map (\<lambda>c. if c < 160 then [c]
                        else (case map_of latin1_nfkd c of None \<Rightarrow> [c] | Some t \<Rightarrow> t)) s)"

definition sample_lower :: "ustr \<Rightarrow> ustr" where
  "sample_lower s =
     map (\<lambda>c. if ascii_upper c \<or> (192 \<le> c \<and> c \<le> 222 \<and> c \<noteq> 215) then c + 32 else c) s"

text \<open>Decimal digits of a natural number, and the value of a text of ASCII digits.\<close>

function dec :: "nat \<Rightarrow> ustr" where
  "dec n = (if n < 10 then [48 + n] else dec (n div 10) @ [48 + n mod 10])"
  by pat_completeness auto
termination
  by (relation "measure id") auto

declare dec.simps [simp del]

definition digits_value :: "ustr \<Rightarrow> nat" where
  "digits_value s = foldl (\<lambda>a c. a * 10 + (c - 48)) 0 s"

text \<open>
  A number of the sample is a finite decimal \<open>(m, k)\<close>, standing for \<open>m / 10 ^ k\<close>.
  \<open>half_even_div m q\<close> is \<open>m / q\<close> rounded to the nearest integer, ties to even.
\<close>

type_synonym decimal = "int \<times> nat"

definition half_even_div :: "int \<Rightarrow> int \<Rightarrow> int" where
  "half_even_div m q =
     (let a = m div q; r = m mod q
      in if 2 * r < q then a else if q < 2 * r then a + 1
         else if even a then a else a + 1)"

definition hundredths :: "decimal \<Rightarrow> int" where
  "hundredths x =
     (case x of (m, k) \<Rightarrow>
        if k \<le> 2 then m * 10 ^ (2 - k) else half_even_div m (10 ^ (k - 2)))"

definition sample_round2 :: "decimal \<Rightarrow> decimal" where
  "sample_round2 x = (case x of (m, k) \<Rightarrow> if k \<le> 2 then (m, k) else (hundredths x, 2))"

fun digits_k :: "nat \<Rightarrow> nat \<Rightarrow> ustr" where
  "digits_k 0 n = []"
| "digits_k (Suc k) n = digits_k k (n div 10) @ [48 + n mod 10]"

definition sample_format2 :: "decimal \<Rightarrow> ustr" where
  "sample_format2 x =
     (let n = hundredths x; a = nat \<bar>n\<bar>
      in (if n < 0 then [45] else []) @ dec (a div 100) @ [46]
         @ [48 + (a mod 100) div 10, 48 + a mod 10])"

text \<open>
  \<open>str\<close> of a float: the integer part, a dot and the decimals without trailing zeros,
  at least one.
\<close>

definition sample_num_str :: "decimal \<Rightarrow> ustr" where
  "sample_num_str x =
     (case x of (m, k) \<Rightarrow>
        let a = nat \<bar>m\<bar>;
            f = rev (dropWhile (\<lambda>c. c = 48) (rev (digits_k k (a mod 10 ^ k))))
        in (if m < 0 then [45] else []) @ dec (a div 10 ^ k) @ [46]
           @ (if f = [] then [48] else f))"

definition sample_to_numeric :: "ustr \<Rightarrow> decimal option" where
  "sample_to_numeric s =
     (let neg = (s \<noteq> [] \<and> hd s = 45);
          body = (if neg then tl s else s);
          whole = takeWhile ascii_digit body;
          rest = dropWhile ascii_digit body;
          frac = (if rest = [] then [] else tl rest);
          ok = (whole \<noteq> [] \<and> list_all ascii_digit frac
                \<and> (rest = [] \<or> (hd rest = 46 \<and> frac \<noteq> [])));
          v = int (digits_value (whole @ frac))
      in if ok then Some (if neg then - v else v, length frac) else None)"

definition sample :: "decimal pylib" where
  "sample =
     \<lparr> nfkd = sample_nfkd, is_mn = sample_mn, re_digit = sample_digit,
       re_space = sample_space, str_lower = sample_lower, num_str = sample_num_str,
       to_numeric = sample_to_numeric, round2 = sample_round2, format2 = sample_format2,
       na_str = lit ''nan'', astype_na = Some (lit ''nan'') \<rparr>"

section \<open>Running the definitions\<close>

lemmas run_text =
  limpar_texto_def aplicar_regras_def preparar_def regra_preco_def regra_tamanho_def
  regra_produto_def regra_cliente_def lit_def mojibake_text_def search_marker_def
  mojibake_marker_def encode_latin1_def acentos_text_def keep_price_def keep_size_def
  keep_prod_def keep_cli_def ascii_digit_def ascii_upper_def ascii_lower_def
  ascii_letter_def is_x_def strip_def all_digits_def is_cont_def second3_def second4_def
  Let_def

lemmas run_sample =
  sample_def sample_nfkd_def sample_mn_def sample_digit_def sample_space_def
  sample_lower_def in_ranges_def nd_ranges_def space_ranges_def latin1_nfkd_def

section \<open>Values that are not text\<close>

text \<open>
  C3 (as amended).  A missing value goes through \<open>limpar_texto\<close> unchanged, and every
  value that is not a \<open>str\<close> (missing or a number) goes through \<open>corrigir_mojibake\<close> and
  \<open>remover_acentos\<close> unchanged, for every context and column name.  A number that is
  not missing is not returned as it is by \<open>limpar_texto\<close>: line 56 turns it into its
  text \<open>str(valor)\<close>, which is then cleaned like any other text, and the result is a
  \<open>str\<close>.
\<close>

theorem non_text_values:
  "limpar_texto L Null contexto nome_coluna = Null
   \<and> corrigir_mojibake (Null :: 'f pyval) = Null
   \<and> corrigir_mojibake (Num x :: 'f pyval) = Num x
   \<and> remover_acentos L Null = Null
   \<and> remover_acentos L (Num x) = Num x
   \<and> limpar_texto L (Num x) contexto nome_coluna
       = limpar_texto L (Str (num_str L x)) contexto nome_coluna
   \<and> limpar_texto L (Num x) contexto nome_coluna \<noteq> Num x"
  by (simp add: limpar_texto_def)

text \<open>
  C3 as stated fails for numbers: the number 3.5 (the decimal \<open>(35, 1)\<close>) in a
  customer table comes back as the text \<open>35\<close>.
\<close>

theorem number_is_not_kept:
  "limpar_texto sample (Num (35, 1)) (lit ''clientes'') None = Str (lit ''35'')
   \<and> limpar_texto sample (Num (35, 1)) (lit ''clientes'') None \<noteq> Num (35, 1)"
  by (simp add: run_text run_sample sample_num_str_def dec.simps)

section \<open>The price rule\<close>

text \<open>
  C6 (as amended).  In the context \<open>produtos\<close>, when the lower-cased column name is
  \<open>preco\<close> (the literal of line 63), \<open>limpar_texto\<close> returns the prepared text (after
  lines 57 to 59) with every character other than the ASCII digits, the dot and the
  hyphen removed, then stripped of surrounding whitespace.  This holds whatever the text
  is, also when it matches the size pattern of line 66: the price rule comes first.
\<close>

theorem price_rule_first:
  assumes "nome \<noteq> []" and "str_lower L nome = lit ''preco''"
  shows "limpar_texto L (Str x) (lit ''produtos'') (Some nome)
         = Str (strip (re_space L) (filter keep_price (preparar L x)))"
  using assms by (simp add: limpar_texto_def aplicar_regras_def regra_preco_def)

theorem price_rule_first_witness:
  "lit ''Preco'' \<noteq> []
   \<and> str_lower sample (lit ''Preco'') = lit ''preco''
   \<and> size_fullmatch (re_digit sample) (preparar sample (lit ''caixa_10x20''))
   \<and> limpar_texto sample (Str (lit ''caixa_10x20'')) (lit ''produtos'') (Some (lit ''Preco''))
       = Str (lit ''1020'')"
proof -
  have n: "lit ''Preco'' \<noteq> []"
    by (simp add: lit_def)
  have l: "str_lower sample (lit ''Preco'') = lit ''preco''"
    by (simp add: run_text run_sample)
  have m: "size_fullmatch (re_digit sample) (preparar sample (lit ''caixa_10x20''))"
    by (simp add: run_text run_sample)
  have "strip (re_space sample) (filter keep_price (preparar sample (lit ''caixa_10x20'')))
        = lit ''1020''"
    by (simp add: run_text run_sample)
  with price_rule_first [OF n l, of "lit ''caixa_10x20''"] n l m show ?thesis
    by simp
qed

text \<open>
  C6 as stated names the column \<open>price\<close>.  For that name the price rule is not taken:
  the dot of \<open>1.5\<close>, which the price rule would keep, is removed by the general product
  rule.
\<close>

theorem price_column_name_counterexample:
  "limpar_texto sample (Str (lit ''1.5'')) (lit ''produtos'') (Some (lit ''price''))
     = Str (lit ''15'')
   \<and> strip (re_space sample) (filter keep_price (lit ''1.5'')) = lit ''1.5''"
  by (simp add: run_text run_sample)

section \<open>Repair of double encoding\<close>

text \<open>
  C9 (as amended).  \<open>corrigir_mojibake\<close> tries the re-decoding exactly when the text
  holds one of the code points U+00C3, U+00C2 and U+0020 (the space), which is the class
  of line 31: a text with none of them is returned unchanged; a text with one of them
  whose Latin-1 encoding or UTF-8 decoding fails is returned unchanged; otherwise the
  decoded text is returned.  The function returns a text in every case.
\<close>

theorem mojibake_cases:
  "(mojibake_marker c \<longleftrightarrow> c = 195 \<or> c = 194 \<or> c = 32)
   \<and> (\<not> list_ex mojibake_marker s \<longrightarrow> corrigir_mojibake (Str s :: 'f pyval) = Str s)
   \<and> (list_ex mojibake_marker s \<and> encode_latin1 s = None
        \<longrightarrow> corrigir_mojibake (Str s :: 'f pyval) = Str s)
   \<and> (list_ex mojibake_marker s \<and> encode_latin1 s = Some b \<and> decode_utf8 b = None
        \<longrightarrow> corrigir_mojibake (Str s :: 'f pyval) = Str s)
   \<and> (list_ex mojibake_marker s \<and> encode_latin1 s = Some b \<and> decode_utf8 b = Some t
        \<longrightarrow> corrigir_mojibake (Str s :: 'f pyval) = Str t)
   \<and> (\<exists>r. corrigir_mojibake (Str s :: 'f pyval) = Str r)"
  by (simp add: mojibake_text_def search_marker_def mojibake_marker_def)

text \<open>
  The four cases at concrete texts: \<open>abc\<close> has no marker; U+00C3 U+20AC has a marker and
  no Latin-1 encoding; U+00C3 followed by \<open>(\<close> is not UTF-8; U+00C3 U+00A9 decodes to
  U+00E9.
\<close>

theorem mojibake_cases_witness:
  "\<not> list_ex mojibake_marker (lit ''abc'')
   \<and> corrigir_mojibake (Str (lit ''abc'') :: decimal pyval) = Str (lit ''abc'')
   \<and> list_ex mojibake_marker [195, 8364] \<and> encode_latin1 [195, 8364] = None
   \<and> corrigir_mojibake (Str [195, 8364] :: decimal pyval) = Str [195, 8364]
   \<and> list_ex mojibake_marker [195, 40] \<and> encode_latin1 [195, 40] = Some [195, 40]
   \<and> decode_utf8 [195, 40] = None
   \<and> corrigir_mojibake (Str [195, 40] :: decimal pyval) = Str [195, 40]
   \<and> list_ex mojibake_marker [195, 169] \<and> encode_latin1 [195, 169] = Some [195, 169]
   \<and> decode_utf8 [195, 169] = Some [233]
   \<and> corrigir_mojibake (Str [195, 169] :: decimal pyval) = Str [233]"
proof -
  have a: "\<not> list_ex mojibake_marker (lit ''abc'')"
    by (simp add: lit_def mojibake_marker_def)
  have b: "list_ex mojibake_marker [195, 8364] \<and> encode_latin1 [195, 8364] = None"
    by (simp add: mojibake_marker_def encode_latin1_def)
  have c: "list_ex mojibake_marker [195, 40] \<and> encode_latin1 [195, 40] = Some [195, 40]
           \<and> decode_utf8 [195, 40] = None"
    by (simp add: mojibake_marker_def encode_latin1_def is_cont_def)
  have d: "list_ex mojibake_marker [195, 169] \<and> encode_latin1 [195, 169] = Some [195, 169]
           \<and> decode_utf8 [195, 169] = Some [233]"
    by (simp add: mojibake_marker_def encode_latin1_def is_cont_def)
  from a b c d
    mojibake_cases [where ?'f = decimal, of 0 "lit ''abc''" "[]" "[]"]
    mojibake_cases [where ?'f = decimal, of 0 "[195, 8364]" "[]" "[]"]
    mojibake_cases [where ?'f = decimal, of 0 "[195, 40]" "[195, 40]" "[]"]
    mojibake_cases [where ?'f = decimal, of 0 "[195, 169]" "[195, 169]" "[233]"]
  show ?thesis
    by simp
qed

text \<open>
  C9 as stated has the set U+00C3, U+00C2 and the replacement marker (U+FFFD, which
  double encoding shows as U+00EF U+00BF U+00BD).  The text U+00D0 U+00B0, space, \<open>x\<close>
  holds none of these and is still changed: the space triggers the re-decoding, which
  succeeds and yields the Cyrillic letter U+0430.
\<close>

theorem mojibake_space_counterexample:
  "\<not> list_ex (\<lambda>c. c = 195 \<or> c = 194 \<or> c = 65533 \<or> c = 239 \<or> c = 191 \<or> c = 189)
        [208, 176, 32, 120 :: nat]
   \<and> corrigir_mojibake (Str [208, 176, 32, 120] :: decimal pyval) = Str [1072, 32, 120]"
  by (simp add: run_text)

section \<open>The decimal comma\<close>

text \<open>
  A comma at position \<open>i\<close> of a text is flanked by digits when the characters before and
  after it are in the class \<open>\d\<close>.
\<close>

definition flanked :: "(cp \<Rightarrow> bool) \<Rightarrow> ustr \<Rightarrow> nat \<Rightarrow> bool" where
  "flanked d t i = (0 < i \<and> Suc i < length t \<and> d (t ! (i - 1)) \<and> t ! i = 44 \<and> d (t ! Suc i))"

lemma sdc_length: "length (sub_decimal_comma d t) = length t"
  by (induction d t rule: sub_decimal_comma.induct) auto

lemma sdc_first: "sub_decimal_comma d (a # r) ! 0 = a"
  by (cases "(d, a # r)" rule: sub_decimal_comma.cases) auto

lemma sdc_changes:
  "i < length t \<Longrightarrow>
   sub_decimal_comma d t ! i = t ! i \<or> (flanked d t i \<and> sub_decimal_comma d t ! i = 46)"
proof (induction d t arbitrary: i rule: sub_decimal_comma.induct)
  case (1 d a b c r)
  show ?case
  proof (cases "d a \<and> b = 44 \<and> d c")
    case True
    consider "i = 0" | "i = 1" | "i = 2" | j where "i = Suc (Suc (Suc j))"
      by (metis One_nat_def Suc_1 not0_implies_Suc)
    then show ?thesis
    proof cases
      case 1
      with True show ?thesis by simp
    next
      case 2
      with True show ?thesis by (simp add: flanked_def)
    next
      case 3
      with True show ?thesis by simp
    next
      case (4 j)
      with "1.prems" have "j < length r" by simp
      from "1.IH"(1) [OF True this] True 4 show ?thesis
        by (cases j) (auto simp: flanked_def)
    qed
  next
    case False
    show ?thesis
    proof (cases i)
      case 0
      with False show ?thesis by auto
    next
      case (Suc j)
      with "1.prems" have "j < length (b # c # r)" by simp
      from "1.IH"(2) [OF False this] False Suc show ?thesis
        by (cases j) (auto simp: flanked_def)
    qed
  qed
qed auto

lemma sdc_replaces:
  "flanked d t i \<Longrightarrow> \<not> d 44 \<Longrightarrow>
   sub_decimal_comma d t ! i = 46
   \<or> (2 \<le> i \<and> t ! (i - 2) = 44 \<and> sub_decimal_comma d t ! (i - 2) = 46)"
proof (induction d t arbitrary: i rule: sub_decimal_comma.induct)
  case (1 d a b c r)
  show ?case
  proof (cases "d a \<and> b = 44 \<and> d c")
    case True
    consider "i = 0" | "i = 1" | "i = 2" | "i = 3" | j where "i = Suc (Suc (Suc (Suc j)))"
      by (metis One_nat_def Suc_1 not0_implies_Suc numeral_3_eq_3)
    then show ?thesis
    proof cases
      case 1
      with "1.prems"(1) show ?thesis by (simp add: flanked_def)
    next
      case 2
      with True show ?thesis by simp
    next
      case 3
      with "1.prems" True show ?thesis by (auto simp: flanked_def)
    next
      case 4
      with True show ?thesis by simp
    next
      case (5 j)
      with "1.prems"(1) have f: "flanked d r (Suc j)"
        by (simp add: flanked_def)
      from "1.IH"(1) [OF True f "1.prems"(2)] True 5 show ?thesis
        by (cases j) (auto simp: numeral_2_eq_2)
    qed
  next
    case False
    show ?thesis
    proof (cases i)
      case 0
      with "1.prems"(1) show ?thesis by (simp add: flanked_def)
    next
      case (Suc j)
      show ?thesis
      proof (cases j)
        case 0
        with Suc "1.prems"(1) False show ?thesis by (simp add: flanked_def)
      next
        case (Suc k)
        with \<open>i = Suc j\<close> "1.prems"(1) have f: "flanked d (b # c # r) j"
          by (simp add: flanked_def)
        from "1.IH"(2) [OF False f "1.prems"(2)] False Suc \<open>i = Suc j\<close> show ?thesis
          by (cases k) (auto simp: numeral_2_eq_2)
      qed
    qed
  qed
qed (auto simp: flanked_def)

lemma sdc_stays:
  "flanked d t i \<Longrightarrow> \<not> d 44 \<Longrightarrow> 2 \<le> i \<Longrightarrow> t ! (i - 2) = 44 \<Longrightarrow>
   sub_decimal_comma d t ! (i - 2) = 46 \<Longrightarrow> sub_decimal_comma d t ! i = 44"
proof (induction d t arbitrary: i rule: sub_decimal_comma.induct)
  case (1 d a b c r)
  show ?case
  proof (cases "d a \<and> b = 44 \<and> d c")
    case True
    from "1.prems"(3)
    have "i = 2 \<or> i = 3 \<or> i = 4 \<or> i = Suc (Suc (Suc (Suc (Suc (i - 5)))))"
      by arith
    then consider "i = 2" | "i = 3" | "i = 4" | j where "i = Suc (Suc (Suc (Suc (Suc j))))"
      by blast
    then show ?thesis
    proof cases
      case 1
      with "1.prems" True show ?thesis by (auto simp: flanked_def)
    next
      case 2
      with "1.prems"(1) have "4 < length (a # b # c # r)" and "(a # b # c # r) ! 3 = 44"
        by (auto simp: flanked_def)
      then obtain r' where "r = 44 # r'"
        by (cases r) (auto simp: numeral_3_eq_3)
      with True 2 show ?thesis
        by (simp add: numeral_3_eq_3 sdc_first)
    next
      case 3
      with "1.prems" True show ?thesis by (auto simp: flanked_def numeral_2_eq_2)
    next
      case (4 j)
      with "1.prems"(1) have f: "flanked d r (Suc (Suc j))"
        by (simp add: flanked_def)
      from 4 "1.prems"(4) have t: "r ! (Suc (Suc j) - 2) = 44"
        by (simp add: numeral_2_eq_2)
      from 4 "1.prems"(5) True have s: "sub_decimal_comma d r ! (Suc (Suc j) - 2) = 46"
        by (simp add: numeral_2_eq_2)
      have "2 \<le> Suc (Suc j)" by simp
      from "1.IH"(1) [OF True f "1.prems"(2) this t s] True 4 show ?thesis
        by simp
    qed
  next
    case False
    from "1.prems"(3) have "i = 2 \<or> i = Suc (Suc (Suc (i - 3)))"
      by arith
    then consider "i = 2" | j where "i = Suc (Suc (Suc j))"
      by blast
    then show ?thesis
    proof cases
      case 1
      with "1.prems" False show ?thesis by (auto simp: flanked_def)
    next
      case (2 j)
      with "1.prems"(1) have f: "flanked d (b # c # r) (Suc (Suc j))"
        by (simp add: flanked_def)
      from 2 "1.prems"(4) have t: "(b # c # r) ! (Suc (Suc j) - 2) = 44"
        by (simp add: numeral_2_eq_2)
      from 2 "1.prems"(5) False
      have s: "sub_decimal_comma d (b # c # r) ! (Suc (Suc j) - 2) = 46"
        by (auto simp: numeral_2_eq_2)
      have "2 \<le> Suc (Suc j)" by simp
      from "1.IH"(2) [OF False f "1.prems"(2) this t s] False 2 show ?thesis
        by auto
    qed
  qed
qed (auto simp: flanked_def)

text \<open>
  C7 (as amended).  For every text value, context and column name the substitution of
  line 59 is applied to the whole prepared text before any rule of a context runs.  It
  keeps the length of the text and changes nothing but commas flanked by digits, which
  become dots.  Matches do not overlap: a comma flanked by digits is replaced unless the
  digit before it is the right-hand digit of a comma replaced just before (two positions
  to the left), and in that case it stays a comma.  So, from left to right, a comma
  flanked by digits becomes a dot exactly when the character two positions to its left
  is not a comma that has become a dot.
\<close>

theorem decimal_comma_before_rules:
  assumes "\<not> re_digit L 44"
  shows "limpar_texto L (Str x) contexto nome
           = Str (aplicar_regras L contexto nome
                    (sub_decimal_comma (re_digit L) (acentos_text L (mojibake_text x))))
         \<and> length (sub_decimal_comma (re_digit L) t) = length t
         \<and> (flanked (re_digit L) t i \<longrightarrow>
              sub_decimal_comma (re_digit L) t ! i = 46
              \<or> (2 \<le> i \<and> t ! (i - 2) = 44
                  \<and> sub_decimal_comma (re_digit L) t ! (i - 2) = 46))
         \<and> (flanked (re_digit L) t i \<and> 2 \<le> i \<and> t ! (i - 2) = 44
                \<and> sub_decimal_comma (re_digit L) t ! (i - 2) = 46 \<longrightarrow>
              sub_decimal_comma (re_digit L) t ! i = 44)
         \<and> (i < length t \<longrightarrow>
              sub_decimal_comma (re_digit L) t ! i = t ! i
              \<or> (flanked (re_digit L) t i \<and> sub_decimal_comma (re_digit L) t ! i = 46))"
proof -
  have "limpar_texto L (Str x) contexto nome
          = Str (aplicar_regras L contexto nome
                   (sub_decimal_comma (re_digit L) (acentos_text L (mojibake_text x))))"
    by (simp add: limpar_texto_def preparar_def)
  moreover have "length (sub_decimal_comma (re_digit L) t) = length t"
    by (rule sdc_length)
  moreover have "flanked (re_digit L) t i \<longrightarrow>
      sub_decimal_comma (re_digit L) t ! i = 46
      \<or> (2 \<le> i \<and> t ! (i - 2) = 44 \<and> sub_decimal_comma (re_digit L) t ! (i - 2) = 46)"
    using assms sdc_replaces by blast
  moreover have "flanked (re_digit L) t i \<and> 2 \<le> i \<and> t ! (i - 2) = 44
        \<and> sub_decimal_comma (re_digit L) t ! (i - 2) = 46 \<longrightarrow>
      sub_decimal_comma (re_digit L) t ! i = 44"
    using assms sdc_stays by blast
  moreover have "i < length t \<longrightarrow>
      sub_decimal_comma (re_digit L) t ! i = t ! i
      \<or> (flanked (re_digit L) t i \<and> sub_decimal_comma (re_digit L) t ! i = 46)"
    using sdc_changes by blast
  ultimately show ?thesis
    by blast
qed

text \<open>
  In the text \<open>1,2,3\<close> the comma at position 1 is replaced, and the comma at position 3,
  whose left digit closed that match, is kept.
\<close>

theorem decimal_comma_before_rules_witness:
  "\<not> re_digit sample 44
   \<and> limpar_texto sample (Str (lit ''a 1,5'')) (lit ''clientes'') None = Str (lit ''a 15'')
   \<and> flanked (re_digit sample) (lit ''1,2,3'') 1
   \<and> sub_decimal_comma (re_digit sample) (lit ''1,2,3'') ! 1 = 46
   \<and> flanked (re_digit sample) (lit ''1,2,3'') 3
   \<and> lit ''1,2,3'' ! (3 - 2) = 44
   \<and> sub_decimal_comma (re_digit sample) (lit ''1,2,3'') ! (3 - 2) = 46
   \<and> sub_decimal_comma (re_digit sample) (lit ''1,2,3'') ! 3 = 44"
proof -
  have d: "\<not> re_digit sample 44"
    by (simp add: run_text run_sample)
  have f: "flanked (re_digit sample) (lit ''1,2,3'') 1
           \<and> flanked (re_digit sample) (lit ''1,2,3'') 3"
    by (simp add: flanked_def run_text run_sample)
  have e: "sub_decimal_comma (re_digit sample) (lit ''1,2,3'') = lit ''1.2,3''"
    by (simp add: run_text run_sample)
  have l: "limpar_texto sample (Str (lit ''a 1,5'')) (lit ''clientes'') None
           = Str (lit ''a 15'')"
    by (simp add: run_text run_sample)
  from d f e l
    decimal_comma_before_rules [OF d, of "lit ''a 1,5''" "lit ''clientes''" None
      "lit ''1,2,3''" 1]
    decimal_comma_before_rules [OF d, of "lit ''a 1,5''" "lit ''clientes''" None
      "lit ''1,2,3''" 3]
  show ?thesis
    by (simp add: lit_def)
qed

text \<open>
  C7 as stated says that every comma flanked by digits is replaced.  In \<open>1,2,3\<close> the
  second comma stands between the digits 2 and 3 and reaches the rules of the context
  as a comma.
\<close>

theorem second_comma_counterexample:
  "flanked (re_digit sample) (lit ''1,2,3'') 3
   \<and> preparar sample (lit ''1,2,3'') = lit ''1.2,3''
   \<and> preparar sample (lit ''1,2,3'') ! 3 = 44"
  by (simp add: flanked_def run_text run_sample)

section \<open>Libraries that are exact on ASCII\<close>

text \<open>The whitespace of ASCII: tab to carriage return, the four separators and space.\<close>

definition ascii_space :: "cp \<Rightarrow> bool" where
  "ascii_space c = ((9 \<le> c \<and> c \<le> 13) \<or> (28 \<le> c \<and> c \<le> 32))"

text \<open>
  A library is exact on ASCII when, on code points below 128, it has the data of every
  Unicode version: an ASCII text is its own NFKD form, no ASCII character is a
  combining mark, and \<open>\d\<close> and \<open>\s\<close> are the ASCII digits and the ASCII whitespace.
\<close>

definition ascii_exact :: "'f pylib \<Rightarrow> bool" where
  "ascii_exact L \<longleftrightarrow>
     (\<forall>s. list_all (\<lambda>c. c < 128) s \<longrightarrow> nfkd L s = s)
     \<and> (\<forall>c. c < 128 \<longrightarrow>
           \<not> is_mn L c \<and> re_digit L c = ascii_digit c \<and> re_space L c = ascii_space c)"

lemma ascii_exact_nfkd: "ascii_exact L \<Longrightarrow> list_all (\<lambda>c. c < 128) s \<Longrightarrow> nfkd L s = s"
  by (simp add: ascii_exact_def)

lemma ascii_exact_mn: "ascii_exact L \<Longrightarrow> c < 128 \<Longrightarrow> is_mn L c = False"
  by (simp add: ascii_exact_def)

lemma ascii_exact_digit: "ascii_exact L \<Longrightarrow> c < 128 \<Longrightarrow> re_digit L c = ascii_digit c"
  by (simp add: ascii_exact_def)

lemma ascii_exact_space: "ascii_exact L \<Longrightarrow> c < 128 \<Longrightarrow> re_space L c = ascii_space c"
  by (simp add: ascii_exact_def)

lemma sample_nfkd_ascii: "list_all (\<lambda>c. c < 128) s \<Longrightarrow> sample_nfkd s = s"
  by (induction s) (auto simp: sample_nfkd_def)

lemma ascii_exact_sample: "ascii_exact sample"
  unfolding ascii_exact_def
proof (intro conjI allI impI)
  fix s :: ustr
  assume "list_all (\<lambda>c. c < 128) s"
  then show "nfkd sample s = s"
    by (simp add: sample_def sample_nfkd_ascii)
next
  fix c :: nat
  assume "c < 128"
  then show "\<not> is_mn sample c"
    by (simp add: sample_def sample_mn_def)
next
  fix c :: nat
  assume "c < 128"
  then show "re_digit sample c = ascii_digit c"
    by (simp add: sample_def sample_digit_def)
next
  fix c :: nat
  assume "c < 128"
  then show "re_space sample c = ascii_space c"
    by (auto simp: sample_def sample_space_def in_ranges_def space_ranges_def ascii_space_def)
qed

section \<open>The size token\<close>

text \<open>
  C5 (as amended).  In the context \<open>produtos\<close>, for a column that is not the price
  column, \<open>limpar_texto\<close> maps \<open>caixa_10x20\<close> to itself (the size rule: the underscore
  is kept) and maps \<open>caixa_10 X 20\<close> to \<open>caixa 10x20\<close>: the spaced form does not match
  the pattern of line 66, so the general product rule runs, which turns the underscore
  into a space and then joins the spaced \<open>X\<close> to \<open>10x20\<close>.
\<close>

theorem size_token_examples:
  assumes "ascii_exact L" and "\<not> coluna_preco L nome"
  shows "limpar_texto L (Str (lit ''caixa_10x20'')) (lit ''produtos'') nome
           = Str (lit ''caixa_10x20'')
         \<and> limpar_texto L (Str (lit ''caixa_10 X 20'')) (lit ''produtos'') nome
           = Str (lit ''caixa 10x20'')"
  using assms(2)
  by (simp add: run_text ascii_space_def ascii_exact_nfkd [OF assms(1)]
        ascii_exact_mn [OF assms(1)] ascii_exact_digit [OF assms(1)]
        ascii_exact_space [OF assms(1)])

theorem size_token_examples_witness:
  "ascii_exact sample
   \<and> \<not> coluna_preco sample (Some (lit ''nome''))
   \<and> limpar_texto sample (Str (lit ''caixa_10x20'')) (lit ''produtos'') (Some (lit ''nome''))
       = Str (lit ''caixa_10x20'')
   \<and> limpar_texto sample (Str (lit ''caixa_10 X 20'')) (lit ''produtos'') (Some (lit ''nome''))
       = Str (lit ''caixa 10x20'')"
proof -
  have n: "\<not> coluna_preco sample (Some (lit ''nome''))"
    by (simp add: run_text run_sample)
  from size_token_examples [OF ascii_exact_sample n] ascii_exact_sample n show ?thesis
    by simp
qed

text \<open>
  C5 as stated has \<open>caixa_10x20\<close> as the result for \<open>caixa_10 X 20\<close>; the code returns
  the text with a space in place of the underscore.
\<close>

theorem spaced_size_counterexample:
  "limpar_texto sample (Str (lit ''caixa_10 X 20'')) (lit ''produtos'') (Some (lit ''nome''))
     = Str (lit ''caixa 10x20'')
   \<and> lit ''caixa 10x20'' \<noteq> lit ''caixa_10x20''"
  by (simp add: run_text run_sample)

section \<open>Numeric coercion of a text column\<close>

lemmas run_num =
  nao_nulos_def col_num_def virgula_ponto_def preco_produtos_def sample_to_numeric_def
  digits_value_def sample_round2_def sample_format2_def hundredths_def half_even_div_def
  dec.simps

text \<open>
  C2 (as amended).  The coercion of an object column is all or nothing.  The texts that
  are tested are those of the cells that are not missing, with every comma replaced by
  a dot.  If one of them fails the pattern of line 132, the column is returned exactly
  as it came.  If all of them match and there is at least one, every cell is converted:
  the result has one number per row, in the original order, a missing cell stays
  missing and every other cell is the number read from its text; outside the price
  column of \<open>produtos\<close> this is a numeric column, and for the price column of \<open>produtos\<close>
  each number is rounded and rendered as text with two decimals (a missing one as the
  empty text), so the result is a column of texts.  A column with no cell that is not
  missing is returned as it came.
\<close>

theorem coercion_all_or_nothing:
  "(\<not> list_all (padrao_numerico (re_digit L)) (nao_nulos L vs) \<longrightarrow>
      tentar_converter_numerico L (ObjCol vs) contexto nome = ObjCol vs)
   \<and> (nao_nulos L vs = [] \<longrightarrow>
      tentar_converter_numerico L (ObjCol vs) contexto nome = ObjCol vs)
   \<and> (nao_nulos L vs \<noteq> [] \<and> list_all (padrao_numerico (re_digit L)) (nao_nulos L vs)
        \<and> \<not> preco_produtos L contexto nome \<longrightarrow>
      tentar_converter_numerico L (ObjCol vs) contexto nome = NumCol (col_num L vs))
   \<and> (nao_nulos L vs \<noteq> [] \<and> list_all (padrao_numerico (re_digit L)) (nao_nulos L vs)
        \<and> preco_produtos L contexto nome \<longrightarrow>
      tentar_converter_numerico L (ObjCol vs) contexto nome
        = ObjCol (map (duas_casas L) (col_num L vs)))
   \<and> length (col_num L vs) = length vs
   \<and> (i < length vs \<longrightarrow>
        col_num L vs ! i
          = (if isna (vs ! i) then None
             else to_numeric L (virgula_ponto (py_str L (vs ! i)))))"
  by (auto simp: col_num_def)

text \<open>
  The column \<open>1, 2, abc\<close> stays as it is; \<open>1, 2.5, -3\<close> becomes numeric; with a missing
  cell and a decimal comma the rows keep their places; a price column becomes texts.
\<close>

theorem coercion_all_or_nothing_witness:
  "\<not> list_all (padrao_numerico (re_digit sample))
        (nao_nulos sample [Str (lit ''1''), Str (lit ''2''), Str (lit ''abc'')])
   \<and> tentar_converter_numerico sample
        (ObjCol [Str (lit ''1''), Str (lit ''2''), Str (lit ''abc'')])
        (lit ''clientes'') (lit ''valor'')
       = ObjCol [Str (lit ''1''), Str (lit ''2''), Str (lit ''abc'')]
   \<and> list_all (padrao_numerico (re_digit sample))
        (nao_nulos sample [Str (lit ''1''), Str (lit ''2.5''), Str (lit ''-3'')])
   \<and> \<not> preco_produtos sample (lit ''clientes'') (lit ''valor'')
   \<and> tentar_converter_numerico sample
        (ObjCol [Str (lit ''1''), Str (lit ''2.5''), Str (lit ''-3'')])
        (lit ''clientes'') (lit ''valor'')
       = NumCol [Some (1, 0), Some (25, 1), Some (- 3, 0)]
   \<and> tentar_converter_numerico sample
        (ObjCol [Str (lit ''1''), Null, Str (lit ''2,5''), Str (lit ''-3'')])
        (lit ''clientes'') (lit ''valor'')
       = NumCol [Some (1, 0), None, Some (25, 1), Some (- 3, 0)]
   \<and> preco_produtos sample (lit ''produtos'') (lit ''Preco'')
   \<and> tentar_converter_numerico sample
        (ObjCol [Str (lit ''19.999''), Null]) (lit ''produtos'') (lit ''Preco'')
       = ObjCol [Str (lit ''20.00''), Str []]
   \<and> nao_nulos sample [Null, Null] = []
   \<and> tentar_converter_numerico sample (ObjCol [Null, Null]) (lit ''clientes'') (lit ''valor'')
       = ObjCol [Null, Null]"
proof -
  have a: "\<not> list_all (padrao_numerico (re_digit sample))
              (nao_nulos sample [Str (lit ''1''), Str (lit ''2''), Str (lit ''abc'')])"
    by (simp add: run_text run_sample run_num)
  have b: "list_all (padrao_numerico (re_digit sample))
              (nao_nulos sample [Str (lit ''1''), Str (lit ''2.5''), Str (lit ''-3'')])
           \<and> nao_nulos sample [Str (lit ''1''), Str (lit ''2.5''), Str (lit ''-3'')] \<noteq> []
           \<and> col_num sample [Str (lit ''1''), Str (lit ''2.5''), Str (lit ''-3'')]
               = [Some (1, 0), Some (25, 1), Some (- 3, 0)]"
    by (simp add: run_text run_sample run_num)
  have c: "list_all (padrao_numerico (re_digit sample))
              (nao_nulos sample [Str (lit ''1''), Null, Str (lit ''2,5''), Str (lit ''-3'')])
           \<and> nao_nulos sample [Str (lit ''1''), Null, Str (lit ''2,5''), Str (lit ''-3'')] \<noteq> []
           \<and> col_num sample [Str (lit ''1''), Null, Str (lit ''2,5''), Str (lit ''-3'')]
               = [Some (1, 0), None, Some (25, 1), Some (- 3, 0)]"
    by (simp add: run_text run_sample run_num)
  have d: "list_all (padrao_numerico (re_digit sample))
              (nao_nulos sample [Str (lit ''19.999''), Null])
           \<and> nao_nulos sample [Str (lit ''19.999''), Null] \<noteq> []
           \<and> map (duas_casas sample) (col_num sample [Str (lit ''19.999''), Null])
               = [Str (lit ''20.00''), Str []]"
    by (simp add: run_text run_sample run_num)
  have e: "nao_nulos sample [Null, Null] = []"
    by (simp add: nao_nulos_def)
  have p: "\<not> preco_produtos sample (lit ''clientes'') (lit ''valor'')
           \<and> preco_produtos sample (lit ''produtos'') (lit ''Preco'')"
    by (simp add: run_text run_sample run_num)
  from a b c d e p
    coercion_all_or_nothing [of sample "[Str (lit ''1''), Str (lit ''2''), Str (lit ''abc'')]"
      "lit ''clientes''" "lit ''valor''" 0]
    coercion_all_or_nothing [of sample "[Str (lit ''1''), Str (lit ''2.5''), Str (lit ''-3'')]"
      "lit ''clientes''" "lit ''valor''" 0]
    coercion_all_or_nothing [of sample
      "[Str (lit ''1''), Null, Str (lit ''2,5''), Str (lit ''-3'')]"
      "lit ''clientes''" "lit ''valor''" 0]
    coercion_all_or_nothing [of sample "[Str (lit ''19.999''), Null]"
      "lit ''produtos''" "lit ''Preco''" 0]
    coercion_all_or_nothing [of sample "[Null, Null]" "lit ''clientes''" "lit ''valor''" 0]
  show ?thesis
    by simp
qed

text \<open>
  C2 as stated says that a column whose values all match is converted to numeric.  For
  the price column of a product table the values all match and the result is not a
  numeric column: it is an object column of formatted texts.
\<close>

theorem price_column_stays_text_counterexample:
  "list_all (padrao_numerico (re_digit sample)) (nao_nulos sample [Str (lit ''1'')])
   \<and> tentar_converter_numerico sample (ObjCol [Str (lit ''1'')]) (lit ''produtos'')
        (lit ''preco'')
       = ObjCol [Str (lit ''1.00'')]"
  by (simp add: run_text run_sample run_num)

section \<open>Price cells that are not numbers\<close>

lemma formatar_primeira_split:
  "list_all (\<lambda>(c, _). str_lower L c \<noteq> lit ''preco'') antes \<Longrightarrow>
   str_lower L nome = lit ''preco'' \<Longrightarrow>
   formatar_primeira L (antes @ (nome, col) # depois)
     = antes @ (nome, ObjCol (map (duas_casas L) (to_numeric_col L col))) # depois"
  by (induction antes) auto

lemma to_numeric_cell_num:
  "map (\<lambda>x. to_numeric_cell L (case x of None \<Rightarrow> Null | Some v \<Rightarrow> Num v)) xs = xs"
  by (induction xs) (auto split: option.splits)

lemma to_numeric_col_celulas: "to_numeric_col L col = map (to_numeric_cell L) (celulas col)"
  by (cases col) (simp_all add: comp_def to_numeric_cell_num)

text \<open>
  C10.  In the context \<open>produtos\<close>, when a column whose lower-cased name is \<open>preco\<close>
  exists, the final pass replaces the first such column (the one that \<open>next\<close> finds; all
  other columns are kept; column names are distinct, as the assignment by name of line
  188 needs), whatever its dtype: each cell becomes a text, a cell that
  \<open>pd.to_numeric\<close> reads as a number becomes that number rounded and printed with two
  decimals, and every cell that \<open>pd.to_numeric\<close> does not read as a number (a text
  that is not a number, also one that earlier stages left as it was, or a missing
  value, which in a numeric column is \<open>NaN\<close>) becomes the empty text.  Nothing is
  reported.
\<close>

theorem final_pass_erases_non_numeric:
  assumes "str_lower L nome = lit ''preco''"
    and "list_all (\<lambda>(c, _). str_lower L c \<noteq> lit ''preco'') antes"
    and "distinct (map fst (antes @ (nome, col) # depois))"
  shows "formatacao_final L (lit ''produtos'') (antes @ (nome, col) # depois)
           = antes
             @ (nome, ObjCol (map (\<lambda>v. duas_casas L (to_numeric_cell L v)) (celulas col)))
             # depois
         \<and> (i < length (celulas col) \<and> to_numeric_cell L (celulas col ! i) = None \<longrightarrow>
              map (\<lambda>v. duas_casas L (to_numeric_cell L v)) (celulas col) ! i = Str [])
         \<and> (i < length (celulas col) \<and> to_numeric_cell L (celulas col ! i) = Some y \<longrightarrow>
              map (\<lambda>v. duas_casas L (to_numeric_cell L v)) (celulas col) ! i
                = Str (format2 L (round2 L y)))
         \<and> celulas (ObjCol vs) = vs
         \<and> celulas (NumCol xs) = map (\<lambda>x. case x of None \<Rightarrow> Null | Some v \<Rightarrow> Num v) xs"
proof -
  have "lit ''preco'' \<in> set (map (\<lambda>(c, _). str_lower L c) (antes @ (nome, col) # depois))"
    using assms(1) by force
  then have "formatacao_final L (lit ''produtos'') (antes @ (nome, col) # depois)
      = formatar_primeira L (antes @ (nome, col) # depois)"
    by (simp add: formatacao_final_def)
  with formatar_primeira_split [OF assms(2) assms(1)] show ?thesis
    by (simp add: comp_def to_numeric_col_celulas)
qed

text \<open>
  A price column of texts with a text that is not a number and a missing cell, and a
  price column of numbers with a missing cell.
\<close>

theorem final_pass_erases_non_numeric_witness:
  "str_lower sample (lit ''Preco'') = lit ''preco''
   \<and> list_all (\<lambda>(c, _). str_lower sample c \<noteq> lit ''preco'')
        [(lit ''id'', NumCol [Some (1, 0), Some (2, 0), Some (3, 0)])]
   \<and> distinct (map fst
        [(lit ''id'', NumCol [Some (1, 0), Some (2, 0), Some (3, 0)]),
         (lit ''Preco'', ObjCol [Str (lit ''abc''), Str (lit ''19.9''), Null :: decimal pyval])])
   \<and> to_numeric_cell sample (Str (lit ''abc'')) = None
   \<and> to_numeric_cell sample (Str (lit ''19.9'')) = Some (199, 1)
   \<and> formatacao_final sample (lit ''produtos'')
        [(lit ''id'', NumCol [Some (1, 0), Some (2, 0), Some (3, 0)]),
         (lit ''Preco'', ObjCol [Str (lit ''abc''), Str (lit ''19.9''), Null])]
       = [(lit ''id'', NumCol [Some (1, 0), Some (2, 0), Some (3, 0)]),
          (lit ''Preco'', ObjCol [Str [], Str (lit ''19.90''), Str []])]
   \<and> distinct (map fst
        [(lit ''id'', NumCol [Some (1, 0), Some (2, 0), Some (3, 0)]),
         (lit ''Preco'', NumCol [Some (19999, 3), None, Some (- 3, 0)])])
   \<and> formatacao_final sample (lit ''produtos'')
        [(lit ''id'', NumCol [Some (1, 0), Some (2, 0), Some (3, 0)]),
         (lit ''Preco'', NumCol [Some (19999, 3), None, Some (- 3, 0)])]
       = [(lit ''id'', NumCol [Some (1, 0), Some (2, 0), Some (3, 0)]),
          (lit ''Preco'', ObjCol [Str (lit ''20.00''), Str [], Str (lit ''-3.00'')])]"
proof -
  have n: "str_lower sample (lit ''Preco'') = lit ''preco''"
    by (simp add: run_text run_sample)
  have a: "list_all (\<lambda>(c, _). str_lower sample c \<noteq> lit ''preco'')
             [(lit ''id'', NumCol [Some (1, 0), Some (2, 0), Some (3, 0)])]"
    by (simp add: run_text run_sample)
  have c: "to_numeric_cell sample (Str (lit ''abc'')) = None"
    by (simp add: run_text run_sample run_num)
  have c2: "to_numeric_cell sample (Str (lit ''19.9'')) = Some (199, 1)"
    by (simp add: run_text run_sample run_num)
  have m: "map (\<lambda>v. duas_casas sample (to_numeric_cell sample v))
             [Str (lit ''abc''), Str (lit ''19.9''), Null]
           = [Str [], Str (lit ''19.90''), Str []]"
    by (simp add: run_text run_sample run_num)
  have m2: "map (\<lambda>v. duas_casas sample (to_numeric_cell sample v))
             (celulas (NumCol [Some (19999, 3), None, Some (- 3, 0)]))
           = [Str (lit ''20.00''), Str [], Str (lit ''-3.00'')]"
    by (simp add: run_text run_sample run_num)
  have d: "distinct (map fst
             (([(lit ''id'', NumCol [Some (1, 0), Some (2, 0), Some (3, 0)])]
                 :: decimal table)
              @ (lit ''Preco'', ObjCol [Str (lit ''abc''), Str (lit ''19.9''), Null]) # []))"
    by (simp add: lit_def)
  have d2: "distinct (map fst
             (([(lit ''id'', NumCol [Some (1, 0), Some (2, 0), Some (3, 0)])]
                 :: decimal table)
              @ (lit ''Preco'', NumCol [Some (19999, 3), None, Some (- 3, 0)]) # []))"
    by (simp add: lit_def)
  from final_pass_erases_non_numeric [OF n a d, of 0 "(0, 0)" "[]" "[]"]
    final_pass_erases_non_numeric [OF n a d, of 1 "(199, 1)" "[]" "[]"]
    final_pass_erases_non_numeric [OF n a d2, of 1 "(0, 0)" "[]" "[]"] n a c c2 m m2 d d2
  show ?thesis
    by simp
qed

section \<open>Reshaping a table of one column\<close>

text \<open>\<open>','.join(parts)\<close>: the parts of a text put together again.\<close>

fun join_comma :: "ustr list \<Rightarrow> ustr" where
  "join_comma [] = []"
| "join_comma [p] = p"
| "join_comma (p # q # r) = p @ 44 # join_comma (q # r)"

lemma split_n_nonempty: "split_n n s \<noteq> []"
  by (cases n) auto

lemma cut_at_comma:
  "44 \<in> set s \<Longrightarrow>
   takeWhile (\<lambda>c. c \<noteq> 44) s @ 44 # tl (dropWhile (\<lambda>c. c \<noteq> 44) s) = s"
  by (induction s) auto

lemma count_after_comma:
  "44 \<in> set s \<Longrightarrow>
   count_list s 44 = Suc (count_list (tl (dropWhile (\<lambda>c. c \<noteq> 44) s)) 44)"
  by (induction s) auto

lemma count_no_comma: "44 \<notin> set s \<Longrightarrow> count_list s (44::nat) = 0"
  by (induction s) auto

lemma split_n_length: "length (split_n n s) = Suc (min n (count_list s 44))"
proof (induction n arbitrary: s)
  case 0
  show ?case by simp
next
  case (Suc n)
  show ?case
  proof (cases "44 \<in> set s")
    case True
    then show ?thesis
      using Suc.IH [of "tl (dropWhile (\<lambda>c. c \<noteq> 44) s)"] count_after_comma [OF True]
      by simp
  next
    case False
    then show ?thesis
      by (simp add: count_no_comma)
  qed
qed

lemma join_split_n: "join_comma (split_n n s) = s"
proof (induction n arbitrary: s)
  case 0
  show ?case by simp
next
  case (Suc n)
  show ?case
  proof (cases "44 \<in> set s")
    case True
    obtain q r where qr: "split_n n (tl (dropWhile (\<lambda>c. c \<noteq> 44) s)) = q # r"
      using split_n_nonempty by (cases "split_n n (tl (dropWhile (\<lambda>c. c \<noteq> 44) s))") auto
    from Suc.IH [of "tl (dropWhile (\<lambda>c. c \<noteq> 44) s)"] qr
    have "join_comma (q # r) = tl (dropWhile (\<lambda>c. c \<noteq> 44) s)"
      by simp
    with True qr show ?thesis
      by (simp add: cut_at_comma)
  next
    case False
    then show ?thesis by simp
  qed
qed

lemma split_n_fields: "list_all (\<lambda>p. 44 \<notin> set p) (butlast (split_n n s))"
proof (induction n arbitrary: s)
  case 0
  show ?case by simp
next
  case (Suc n)
  show ?case
  proof (cases "44 \<in> set s")
    case True
    have "44 \<notin> set (takeWhile (\<lambda>c. c \<noteq> 44) s)"
      by (auto dest: set_takeWhileD)
    with True Suc.IH [of "tl (dropWhile (\<lambda>c. c \<noteq> 44) s)"] show ?thesis
      by (simp add: split_n_nonempty)
  next
    case False
    then show ?thesis by simp
  qed
qed

lemma join_split_all: "join_comma (split_all s) = s"
  by (simp add: split_all_def join_split_n)

lemma count_le_length: "count_list s a \<le> length s"
  by (induction s) auto

lemma split_all_length: "length (split_all s) = Suc (count_list s 44)"
  using count_le_length [of s 44] by (simp add: split_all_def split_n_length min_def)

lemma split_n_complete:
  "count_list s 44 \<le> n \<Longrightarrow> list_all (\<lambda>p. 44 \<notin> set p) (split_n n s)"
proof (induction n arbitrary: s)
  case 0
  then show ?case by (simp add: count_list_0_iff)
next
  case (Suc n)
  show ?case
  proof (cases "44 \<in> set s")
    case True
    have h: "44 \<notin> set (takeWhile (\<lambda>c. c \<noteq> 44) s)"
      by (auto dest: set_takeWhileD)
    from Suc.prems count_after_comma [OF True]
    have "count_list (tl (dropWhile (\<lambda>c. c \<noteq> 44) s)) 44 \<le> n"
      by simp
    then have "list_all (\<lambda>p. 44 \<notin> set p) (split_n n (tl (dropWhile (\<lambda>c. c \<noteq> 44) s)))"
      by (rule Suc.IH)
    with True h show ?thesis by simp
  next
    case False
    then show ?thesis by simp
  qed
qed

lemma split_all_fields: "list_all (\<lambda>p. 44 \<notin> set p) (split_all s)"
  unfolding split_all_def by (rule split_n_complete) (rule count_le_length)

lemma largura_ge: "Some p \<in> set ps \<Longrightarrow> length p \<le> largura ps"
  by (induction ps) (auto simp: largura_def)

lemma largura_le:
  "list_all (\<lambda>p. case p of None \<Rightarrow> 1 \<le> k | Some ps \<Rightarrow> length ps \<le> k) ps \<Longrightarrow> largura ps \<le> k"
  by (induction ps) (auto simp: largura_def split: option.splits)

lemma largura_rows:
  assumes "list_ex (\<lambda>t. case t of None \<Rightarrow> False | Some s \<Rightarrow> n \<le> count_list s 44) rows"
  shows "largura (map (map_option (split_n n)) rows) = Suc n"
proof -
  have "list_all (\<lambda>p. case p of None \<Rightarrow> 1 \<le> Suc n | Some ps \<Rightarrow> length ps \<le> Suc n)
          (map (map_option (split_n n)) rows)"
    by (simp add: list_all_iff split_n_length split: option.splits)
  then have le: "largura (map (map_option (split_n n)) rows) \<le> Suc n"
    by (rule largura_le)
  from assms obtain s where s: "Some s \<in> set rows" "n \<le> count_list s 44"
    by (auto simp: list_ex_iff split: option.splits)
  then have "length (split_n n s) = Suc n"
    by (simp add: split_n_length min_def)
  moreover from s have "Some (split_n n s) \<in> set (map (map_option (split_n n)) rows)"
    by force
  ultimately have "Suc n \<le> largura (map (map_option (split_n n)) rows)"
    using largura_ge by metis
  with le show ?thesis by simp
qed

text \<open>
  C8 (as amended).  For a table with exactly one column whose name holds a comma, the
  name is split at every comma into the header fields (each stripped of surrounding
  whitespace).  Every cell is taken as text by \<open>astype(str)\<close>: a cell that is not
  missing is its text \<open>str(valor)\<close>, a missing cell is what the library makes of it (a
  text, or again a missing cell).  Every text is split with at most as many splits as
  the name has commas, so that the last field keeps its commas.  A row with fewer
  fields is filled with missing values, and a row whose cell is still missing is
  missing in every column.  When at least one row has as many commas as the name, the
  table is rebuilt with one column per header field.  Splitting is characterised by
  three facts: the number of parts is one more than the smaller of the limit and the
  number of commas, the parts joined by commas give the text back, and no part but the
  last holds a comma.
\<close>

theorem reshape_by_header:
  assumes "44 \<in> set nome_col"
    and "list_ex (\<lambda>t. case t of None \<Rightarrow> False
                        | Some s \<Rightarrow> count_list nome_col 44 \<le> count_list s 44)
           (astype_str L col)"
  shows "expandir_coluna_csv_embutido L [(nome_col, col)]
           = Inr (map (\<lambda>j. (strip (re_space L) (split_all nome_col ! j),
                             ObjCol (map (\<lambda>t. case t of
                                                 None \<Rightarrow> Null
                                               | Some s \<Rightarrow>
                                                   let ps = split_n (count_list nome_col 44) s
                                                   in if j < length ps then Str (ps ! j) else Null)
                                       (astype_str L col))))
                    [0..<Suc (count_list nome_col 44)])
         \<and> astype_str L col
             = map (\<lambda>v. if isna v then astype_na L else Some (py_str L v)) (celulas col)
         \<and> length (split_all nome_col) = Suc (count_list nome_col 44)
         \<and> join_comma (split_all nome_col) = nome_col
         \<and> list_all (\<lambda>p. 44 \<notin> set p) (split_all nome_col)
         \<and> length (split_n n s) = Suc (min n (count_list s 44))
         \<and> join_comma (split_n n s) = s
         \<and> list_all (\<lambda>p. 44 \<notin> set p) (butlast (split_n n s))"
proof -
  let ?k = "count_list nome_col 44"
  have w: "largura (map (map_option (split_n ?k)) (astype_str L col)) = Suc ?k"
    using assms(2) by (rule largura_rows)
  have c: "campo j (map_option (split_n ?k) t)
           = (case t of None \<Rightarrow> Null
              | Some s \<Rightarrow> let ps = split_n ?k s in if j < length ps then Str (ps ! j) else Null)"
    for j and t :: "ustr option"
    by (cases t) (simp_all add: campo_def)
  have e: "expandir_coluna_csv_embutido L [(nome_col, col)]
           = Inr (map (\<lambda>j. (strip (re_space L) (split_all nome_col ! j),
                             ObjCol (map (\<lambda>t. campo j (map_option (split_n ?k) t))
                                       (astype_str L col))))
                    [0..<Suc ?k])"
    using assms(1) w
    by (simp add: expandir_coluna_csv_embutido_def primeira_estrategia_def Let_def
        split_all_length expand_def comp_def del: upt_Suc cong: map_cong)
  from e show ?thesis
    unfolding c
    by (simp add: split_all_length split_all_fields split_n_length join_split_n
        join_split_all split_n_fields astype_str_def del: upt_Suc)
qed

lemmas run_reshape =
  expandir_coluna_csv_embutido_def primeira_estrategia_def segunda_estrategia_def
  split_all_def largura_def campo_def expand_def astype_str_def

text \<open>
  The table of the claim; a table with a header field to strip, a last field with
  commas and a short row; and a table with a missing cell, under a library that prints
  it as \<open>nan\<close> and under one that keeps it missing.
\<close>

theorem reshape_by_header_witness:
  "44 \<in> set (lit ''id,nome,preco'')
   \<and> list_ex (\<lambda>t. case t of None \<Rightarrow> False
                  | Some s \<Rightarrow> count_list (lit ''id,nome,preco'') 44 \<le> count_list s 44)
        (astype_str sample (ObjCol [Str (lit ''1,Mesa,199.9'')]))
   \<and> expandir_coluna_csv_embutido sample
        [(lit ''id,nome,preco'', ObjCol [Str (lit ''1,Mesa,199.9'')])]
       = Inr [(lit ''id'', ObjCol [Str (lit ''1'')]),
              (lit ''nome'', ObjCol [Str (lit ''Mesa'')]),
              (lit ''preco'', ObjCol [Str (lit ''199.9'')])]
   \<and> list_ex (\<lambda>t. case t of None \<Rightarrow> False
                  | Some s \<Rightarrow> count_list (lit ''id, nome'') 44 \<le> count_list s 44)
        (astype_str sample (ObjCol [Str (lit ''1,Mesa,de,canto''), Str (lit ''2'')]))
   \<and> expandir_coluna_csv_embutido sample
        [(lit ''id, nome'', ObjCol [Str (lit ''1,Mesa,de,canto''), Str (lit ''2'')])]
       = Inr [(lit ''id'', ObjCol [Str (lit ''1''), Str (lit ''2'')]),
              (lit ''nome'', ObjCol [Str (lit ''Mesa,de,canto''), Null])]
   \<and> list_ex (\<lambda>t. case t of None \<Rightarrow> False
                  | Some s \<Rightarrow> count_list (lit ''a,b'') 44 \<le> count_list s 44)
        (astype_str sample (ObjCol [Str (lit ''1,2''), Null]))
   \<and> expandir_coluna_csv_embutido sample [(lit ''a,b'', ObjCol [Str (lit ''1,2''), Null])]
       = Inr [(lit ''a'', ObjCol [Str (lit ''1''), Str (lit ''nan'')]),
              (lit ''b'', ObjCol [Str (lit ''2''), Null])]
   \<and> list_ex (\<lambda>t. case t of None \<Rightarrow> False
                  | Some s \<Rightarrow> count_list (lit ''a,b'') 44 \<le> count_list s 44)
        (astype_str (sample \<lparr> astype_na := None \<rparr>) (ObjCol [Str (lit ''1,2''), Null]))
   \<and> expandir_coluna_csv_embutido (sample \<lparr> astype_na := None \<rparr>)
        [(lit ''a,b'', ObjCol [Str (lit ''1,2''), Null])]
       = Inr [(lit ''a'', ObjCol [Str (lit ''1''), Null]),
              (lit ''b'', ObjCol [Str (lit ''2''), Null])]"
proof -
  have a: "44 \<in> set (lit ''id,nome,preco'')" and a2: "44 \<in> set (lit ''id, nome'')"
    and a3: "44 \<in> set (lit ''a,b'')"
    by (simp_all add: lit_def)
  have b: "list_ex (\<lambda>t. case t of None \<Rightarrow> False
                      | Some s \<Rightarrow> count_list (lit ''id,nome,preco'') 44 \<le> count_list s 44)
             (astype_str sample (ObjCol [Str (lit ''1,Mesa,199.9'')]))"
    by (simp add: lit_def astype_str_def)
  have b2: "list_ex (\<lambda>t. case t of None \<Rightarrow> False
                       | Some s \<Rightarrow> count_list (lit ''id, nome'') 44 \<le> count_list s 44)
             (astype_str sample (ObjCol [Str (lit ''1,Mesa,de,canto''), Str (lit ''2'')]))"
    by (simp add: lit_def astype_str_def)
  have b3: "list_ex (\<lambda>t. case t of None \<Rightarrow> False
                       | Some s \<Rightarrow> count_list (lit ''a,b'') 44 \<le> count_list s 44)
             (astype_str sample (ObjCol [Str (lit ''1,2''), Null]))"
    by (simp add: lit_def astype_str_def)
  have b4: "list_ex (\<lambda>t. case t of None \<Rightarrow> False
                       | Some s \<Rightarrow> count_list (lit ''a,b'') 44 \<le> count_list s 44)
             (astype_str (sample \<lparr> astype_na := None \<rparr>) (ObjCol [Str (lit ''1,2''), Null]))"
    by (simp add: lit_def astype_str_def)
  have c: "expandir_coluna_csv_embutido sample
        [(lit ''id,nome,preco'', ObjCol [Str (lit ''1,Mesa,199.9'')])]
       = Inr [(lit ''id'', ObjCol [Str (lit ''1'')]),
              (lit ''nome'', ObjCol [Str (lit ''Mesa'')]),
              (lit ''preco'', ObjCol [Str (lit ''199.9'')])]"
    by (simp add: run_reshape run_text run_sample)
  have c2: "expandir_coluna_csv_embutido sample
        [(lit ''id, nome'', ObjCol [Str (lit ''1,Mesa,de,canto''), Str (lit ''2'')])]
       = Inr [(lit ''id'', ObjCol [Str (lit ''1''), Str (lit ''2'')]),
              (lit ''nome'', ObjCol [Str (lit ''Mesa,de,canto''), Null])]"
    by (simp add: run_reshape run_text run_sample)
  have c3: "expandir_coluna_csv_embutido sample
        [(lit ''a,b'', ObjCol [Str (lit ''1,2''), Null])]
       = Inr [(lit ''a'', ObjCol [Str (lit ''1''), Str (lit ''nan'')]),
              (lit ''b'', ObjCol [Str (lit ''2''), Null])]"
    by (simp add: run_reshape run_text run_sample)
  have c4: "expandir_coluna_csv_embutido (sample \<lparr> astype_na := None \<rparr>)
        [(lit ''a,b'', ObjCol [Str (lit ''1,2''), Null])]
       = Inr [(lit ''a'', ObjCol [Str (lit ''1''), Null]),
              (lit ''b'', ObjCol [Str (lit ''2''), Null])]"
    by (simp add: run_reshape run_text run_sample)
  from reshape_by_header [OF a b, of 0 "[]"] reshape_by_header [OF a2 b2, of 0 "[]"]
    reshape_by_header [OF a3 b3, of 0 "[]"] reshape_by_header [OF a3 b4, of 0 "[]"]
    a b b2 b3 b4 c c2 c3 c4
  show ?thesis
    by simp
qed

text \<open>
  C8 as stated says that each row's value is split into as many fields as the header
  has.  A row with fewer commas is not: under the header \<open>a,b\<close> the row \<open>3\<close> has the
  single part \<open>3\<close>, and its second cell is a missing value.
\<close>

theorem short_row_counterexample:
  "expandir_coluna_csv_embutido sample
     [(lit ''a,b'', ObjCol [Str (lit ''1,2''), Str (lit ''3'')])]
     = Inr [(lit ''a'', ObjCol [Str (lit ''1''), Str (lit ''3'')]),
            (lit ''b'', ObjCol [Str (lit ''2''), Null])]
   \<and> split_n 1 (lit ''3'') = [lit ''3'']"
  by (simp add: run_reshape run_text run_sample)

text \<open>
  When no row has as many fields as the header, the frame of parts is narrower than
  the header and the assignment of line 102 raises \<open>ValueError\<close>.
\<close>

lemma reshape_short_rows_raise:
  "expandir_coluna_csv_embutido sample [(lit ''a,b'', ObjCol [Str (lit ''3'')])]
     = Inl ValueError"
  by (simp add: run_reshape run_text run_sample)

section \<open>Idempotence of limpar\_texto\<close>

subsection \<open>Texts that the preparation leaves alone\<close>

lemma decode_utf8_ascii: "list_all (\<lambda>c. c < 128) s \<Longrightarrow> decode_utf8 s = Some s"
  by (induction s) auto

lemma mojibake_text_ascii: "list_all (\<lambda>c. c < 128) s \<Longrightarrow> mojibake_text s = s"
proof -
  assume a: "list_all (\<lambda>c. c < 128) s"
  then have "list_all (\<lambda>c. c < 256) s"
    by (induction s) auto
  with a show ?thesis
    by (simp add: mojibake_text_def encode_latin1_def decode_utf8_ascii)
qed

lemma acentos_text_ascii:
  assumes "ascii_exact L" and "list_all (\<lambda>c. c < 128) s"
  shows "acentos_text L s = s"
proof -
  from assms have "nfkd L s = s"
    by (simp add: ascii_exact_def)
  moreover from assms have "filter (\<lambda>ch. \<not> is_mn L ch) s = s"
    by (auto simp: ascii_exact_def list_all_iff filter_id_conv)
  ultimately show ?thesis
    by (simp add: acentos_text_def)
qed

lemma sub_decimal_comma_none: "44 \<notin> set s \<Longrightarrow> sub_decimal_comma d s = s"
  by (induction d s rule: sub_decimal_comma.induct) auto

lemma preparar_fixed:
  assumes "ascii_exact L" and "list_all (\<lambda>c. c < 128) s" and "44 \<notin> set s"
  shows "preparar L s = s"
  using assms
  by (simp add: preparar_def mojibake_text_ascii acentos_text_ascii sub_decimal_comma_none)

text \<open>
  The substitutions look at a text only through the classes of its own characters.
\<close>

lemma collapse_ws_cong:
  "(\<And>c. c \<in> set s \<Longrightarrow> sp c = sp' c) \<Longrightarrow> collapse_ws sp s = collapse_ws sp' s"
proof (induction sp s rule: collapse_ws.induct)
  case (1 sp)
  show ?case by simp
next
  case (2 sp c cs)
  have dw: "dropWhile sp cs = dropWhile sp' cs"
    by (rule dropWhile_cong) (auto simp: "2.prems")
  have sub: "set (dropWhile sp cs) \<subseteq> set cs"
    by (auto dest: set_dropWhileD)
  show ?case
  proof (cases "sp c")
    case True
    with "2.prems" have t': "sp' c" by auto
    from "2.IH"(1) [OF True] sub "2.prems"
    have "collapse_ws sp (dropWhile sp cs) = collapse_ws sp' (dropWhile sp cs)"
      by auto
    with True t' dw show ?thesis by simp
  next
    case False
    with "2.prems" have f': "\<not> sp' c" by auto
    from "2.IH"(2) [OF False] "2.prems" have "collapse_ws sp cs = collapse_ws sp' cs"
      by auto
    with False f' show ?thesis by simp
  qed
qed

lemma strip_cong:
  assumes "\<And>c. c \<in> set s \<Longrightarrow> sp c = sp' c"
  shows "strip sp s = strip sp' s"
proof -
  have a: "dropWhile sp s = dropWhile sp' s"
    by (rule dropWhile_cong) (auto simp: assms)
  have "set (rev (dropWhile sp' s)) \<subseteq> set s"
    by (auto dest: set_dropWhileD)
  then have "dropWhile sp (rev (dropWhile sp' s)) = dropWhile sp' (rev (dropWhile sp' s))"
    by (intro dropWhile_cong) (auto simp: assms)
  with a show ?thesis
    by (simp add: strip_def)
qed

lemma sub_pair_cong:
  "(\<And>c. c \<in> set s \<Longrightarrow> P c = P' c \<and> Q c = Q' c) \<Longrightarrow> sub_pair P Q s = sub_pair P' Q' s"
  by (induction P Q s rule: sub_pair.induct) auto

lemma match_sp_digit_cong:
  "(\<And>c. c \<in> set s \<Longrightarrow> d c = d' c \<and> sp c = sp' c) \<Longrightarrow>
   match_sp_digit d sp s = match_sp_digit d' sp' s"
  by (induction s) auto

lemma match_x_cong:
  "(\<And>c. c \<in> set s \<Longrightarrow> d c = d' c \<and> sp c = sp' c) \<Longrightarrow>
   match_x d sp s = match_x d' sp' s"
proof (induction s)
  case Nil
  show ?case by simp
next
  case (Cons c cs)
  have "match_sp_digit d sp cs = match_sp_digit d' sp' cs"
    by (rule match_sp_digit_cong) (simp add: Cons.prems)
  moreover have "match_x d sp cs = match_x d' sp' cs"
    by (rule Cons.IH) (simp add: Cons.prems)
  moreover have "sp c = sp' c"
    by (simp add: Cons.prems)
  ultimately show ?case by (simp split: option.splits)
qed

lemma match_sp_digit_decomp:
  "match_sp_digit d sp s = Some (e, r) \<Longrightarrow> \<exists>p. s = p @ e # r"
proof (induction s)
  case Nil
  then show ?case by simp
next
  case (Cons c cs)
  show ?case
  proof (cases "match_sp_digit d sp cs = Some (e, r) \<and> sp c")
    case True
    with Cons.IH obtain p where "cs = p @ e # r" by auto
    then have "c # cs = (c # p) @ e # r" by simp
    then show ?thesis by blast
  next
    case False
    with Cons.prems have "c = e \<and> cs = r"
      by (auto split: if_splits option.splits)
    then have "c # cs = [] @ e # r" by simp
    then show ?thesis by blast
  qed
qed

lemma match_x_decomp: "match_x d sp s = Some (e, r) \<Longrightarrow> \<exists>p. s = p @ e # r"
proof (induction s)
  case Nil
  then show ?case by simp
next
  case (Cons c cs)
  show ?case
  proof (cases "match_x d sp cs = Some (e, r) \<and> sp c")
    case True
    with Cons.IH obtain p where "cs = p @ e # r" by auto
    then have "c # cs = (c # p) @ e # r" by simp
    then show ?thesis by blast
  next
    case False
    with Cons.prems have "match_sp_digit d sp cs = Some (e, r)"
      by (auto split: if_splits option.splits)
    then obtain p where "cs = p @ e # r"
      using match_sp_digit_decomp by blast
    then have "c # cs = (c # p) @ e # r" by simp
    then show ?thesis by blast
  qed
qed

lemma sub_x_cong:
  "(\<And>c. c \<in> set s \<Longrightarrow> d c = d' c \<and> sp c = sp' c) \<Longrightarrow> sub_x d sp s = sub_x d' sp' s"
proof (induction d sp s rule: sub_x.induct)
  case (1 d sp)
  show ?case by simp
next
  case (2 d sp c cs)
  have m: "match_x d sp cs = match_x d' sp' cs"
    by (rule match_x_cong) (simp add: "2.prems")
  have dc: "d c = d' c"
    by (simp add: "2.prems")
  show ?case
  proof (cases "d c")
    case True
    show ?thesis
    proof (cases "match_x d sp cs")
      case None
      from "2.IH"(1) [OF True None] "2.prems" have "sub_x d sp cs = sub_x d' sp' cs"
        by simp
      with True None m dc show ?thesis by simp
    next
      case (Some er)
      obtain e r where er: "er = (e, r)" by (cases er)
      with Some obtain p where "cs = p @ e # r"
        using match_x_decomp by blast
      then have "set r \<subseteq> set cs" by auto
      with "2.IH"(2) [OF True Some er [symmetric]] "2.prems"
      have "sub_x d sp r = sub_x d' sp' r"
        by auto
      with True Some er m dc show ?thesis by simp
    qed
  next
    case False
    from "2.IH"(3) [OF False] "2.prems" have "sub_x d sp cs = sub_x d' sp' cs"
      by simp
    with False dc show ?thesis by simp
  qed
qed

lemma match_us_cong:
  "(\<And>c. c \<in> set s \<Longrightarrow> sp c = sp' c) \<Longrightarrow> match_us sp s = match_us sp' s"
proof (induction s)
  case Nil
  show ?case by simp
next
  case (Cons c cs)
  have "dropWhile sp cs = dropWhile sp' cs"
    by (rule dropWhile_cong) (auto simp: Cons.prems)
  moreover have "match_us sp cs = match_us sp' cs"
    by (rule Cons.IH) (simp add: Cons.prems)
  moreover have "sp c = sp' c"
    by (simp add: Cons.prems)
  ultimately show ?case by (simp split: option.splits)
qed

lemma match_us_suffix: "match_us sp s = Some r \<Longrightarrow> \<exists>p. s = p @ r"
proof (induction s)
  case Nil
  then show ?case by simp
next
  case (Cons c cs)
  have dw: "\<exists>p. c # cs = p @ dropWhile sp cs"
    by (metis append_Cons takeWhile_dropWhile_id)
  show ?case
  proof (cases "match_us sp cs = Some r \<and> sp c")
    case True
    with Cons.IH obtain p where "cs = p @ r" by auto
    then have "c # cs = (c # p) @ r" by simp
    then show ?thesis by blast
  next
    case False
    with Cons.prems have "r = dropWhile sp cs"
      by (auto split: if_splits option.splits)
    with dw show ?thesis by simp
  qed
qed

lemma sub_us_cong:
  "(\<And>c. c \<in> set s \<Longrightarrow> sp c = sp' c) \<Longrightarrow> sub_us sp s = sub_us sp' s"
proof (induction sp s rule: sub_us.induct)
  case (1 sp)
  show ?case by simp
next
  case (2 sp c cs)
  have m: "match_us sp (c # cs) = match_us sp' (c # cs)"
    by (rule match_us_cong) (simp add: "2.prems")
  show ?case
  proof (cases "match_us sp (c # cs)")
    case None
    from "2.IH"(1) [OF None] "2.prems" have "sub_us sp cs = sub_us sp' cs"
      by simp
    with None m show ?thesis
      by (simp del: match_us.simps)
  next
    case (Some r)
    then obtain p where "c # cs = p @ r"
      using match_us_suffix by blast
    then have "set r \<subseteq> set (c # cs)"
      by (metis set_append sup_ge2)
    with "2.IH"(2) [OF Some] "2.prems" have "sub_us sp r = sub_us sp' r"
      by auto
    with Some m show ?thesis
      by (simp del: match_us.simps)
  qed
qed

lemma digits_x_digits_cong:
  "(\<And>c. c \<in> set s \<Longrightarrow> d c = d' c) \<Longrightarrow> digits_x_digits d s = digits_x_digits d' s"
proof (induction s)
  case Nil
  show ?case by simp
next
  case (Cons c cs)
  have "list_all d cs = list_all d' cs"
    using Cons.prems by (auto simp: list_all_iff)
  moreover have "digits_x_digits d cs = digits_x_digits d' cs"
    by (rule Cons.IH) (simp add: Cons.prems)
  moreover have "d c = d' c"
    by (simp add: Cons.prems)
  ultimately show ?case by (simp add: all_digits_def)
qed

lemma size_fullmatch_cong:
  "(\<And>c. c \<in> set s \<Longrightarrow> d c = d' c) \<Longrightarrow> size_fullmatch d s = size_fullmatch d' s"
proof (induction s)
  case Nil
  show ?case by simp
next
  case (Cons c cs)
  have "size_tail d cs = size_tail d' cs"
  proof (cases cs)
    case Nil
    then show ?thesis by simp
  next
    case (Cons e es)
    have "digits_x_digits d es = digits_x_digits d' es"
      by (rule digits_x_digits_cong) (simp add: Cons Cons.prems)
    moreover have "d e = d' e"
      by (simp add: Cons Cons.prems)
    ultimately show ?thesis by (simp add: Cons)
  qed
  moreover have "size_fullmatch d cs = size_fullmatch d' cs"
    by (rule Cons.IH) (simp add: Cons.prems)
  ultimately show ?case by simp
qed

subsection \<open>Adjacent characters\<close>

text \<open>
  \<open>no_pair P Q s\<close>: no character of class \<open>P\<close> is directly followed by one of class
  \<open>Q\<close>.  \<open>trimmed s\<close>: no space at either end.
\<close>

definition no_pair :: "(cp \<Rightarrow> bool) \<Rightarrow> (cp \<Rightarrow> bool) \<Rightarrow> ustr \<Rightarrow> bool" where
  "no_pair P Q s = successively (\<lambda>a b. \<not> (P a \<and> Q b)) s"

definition trimmed :: "ustr \<Rightarrow> bool" where
  "trimmed s = (s = [] \<or> (hd s \<noteq> 32 \<and> last s \<noteq> 32))"

lemma no_pair_Cons:
  "no_pair P Q (a # s) \<longleftrightarrow> (s = [] \<or> (\<not> (P a \<and> Q (hd s)) \<and> no_pair P Q s))"
  by (simp add: no_pair_def successively_Cons)

lemma no_pair_Nil [simp]: "no_pair P Q []"
  by (simp add: no_pair_def)

lemma sub_pair_Nil_iff [simp]: "sub_pair P Q s = [] \<longleftrightarrow> s = []"
  by (induction P Q s rule: sub_pair.induct) auto

lemma sub_pair_hd [simp]: "hd (sub_pair P Q s) = hd s"
  by (induction P Q s rule: sub_pair.induct) auto

lemma sub_pair_last [simp]: "last (sub_pair P Q s) = last s"
  by (induction P Q s rule: sub_pair.induct) auto

lemma sub_pair_trimmed: "trimmed s \<Longrightarrow> trimmed (sub_pair P Q s)"
  by (simp add: trimmed_def)

lemma sub_pair_fixed: "no_pair P Q s \<Longrightarrow> sub_pair P Q s = s"
  by (induction P Q s rule: sub_pair.induct) (auto simp: no_pair_def)

lemma sub_pair_keeps:
  "\<forall>a b. P a \<and> Q b \<longrightarrow> \<not> (A a \<and> B 32) \<and> \<not> (A 32 \<and> B b) \<Longrightarrow>
   no_pair A B s \<Longrightarrow> no_pair A B (sub_pair P Q s)"
proof (induction P Q s rule: sub_pair.induct)
  case (1 P Q a b r)
  show ?case
  proof (cases "P a \<and> Q b")
    case True
    from "1.prems"(2) have r: "no_pair A B r" and br: "r = [] \<or> \<not> (A b \<and> B (hd r))"
      by (auto simp: no_pair_Cons)
    from "1.IH"(1) [OF True "1.prems"(1) r] have "no_pair A B (sub_pair P Q r)" .
    with True br "1.prems"(1) show ?thesis
      by (auto simp: no_pair_Cons)
  next
    case False
    from "1.prems"(2) have "no_pair A B (b # r)"
      by (auto simp: no_pair_Cons)
    from "1.IH"(2) [OF False "1.prems"(1) this] have "no_pair A B (sub_pair P Q (b # r))" .
    with False "1.prems"(2) show ?thesis
      by (auto simp: no_pair_Cons)
  qed
qed (auto simp: no_pair_def)

lemma sub_pair_splits:
  "\<not> P 32 \<Longrightarrow> \<not> Q 32 \<Longrightarrow> \<forall>c. Q c \<longrightarrow> \<not> P c \<Longrightarrow> no_pair P Q (sub_pair P Q s)"
proof (induction P Q s rule: sub_pair.induct)
  case (1 P Q a b r)
  show ?case
  proof (cases "P a \<and> Q b")
    case True
    from "1.IH"(1) [OF True "1.prems"] have "no_pair P Q (sub_pair P Q r)" .
    with True "1.prems" show ?thesis
      by (auto simp: no_pair_Cons)
  next
    case False
    from "1.IH"(2) [OF False "1.prems"] have "no_pair P Q (sub_pair P Q (b # r))" .
    with False show ?thesis
      by (auto simp: no_pair_Cons)
  qed
qed (auto simp: no_pair_def)

lemma collapse_fixed: "no_pair (\<lambda>c. c = 32) (\<lambda>c. c = 32) s \<Longrightarrow> collapse_ws (\<lambda>c. c = 32) s = s"
proof (induction s)
  case Nil
  show ?case by simp
next
  case (Cons c cs)
  from Cons.prems have n: "no_pair (\<lambda>c. c = 32) (\<lambda>c. c = 32) cs"
    and h: "cs = [] \<or> \<not> (c = 32 \<and> hd cs = 32)"
    by (auto simp: no_pair_Cons)
  from h have "c = 32 \<Longrightarrow> dropWhile (\<lambda>c. c = 32) cs = cs"
    by (cases cs) auto
  with Cons.IH [OF n] show ?case by simp
qed

lemma collapse_single:
  "no_pair (\<lambda>c. c = 32) (\<lambda>c. c = 32) (collapse_ws (\<lambda>c. c = 32) s)"
proof (induction "\<lambda>c::nat. c = 32" s rule: collapse_ws.induct)
  case 1
  show ?case by simp
next
  case (2 c cs)
  show ?case
  proof (cases "c = 32")
    case True
    have "dropWhile (\<lambda>c. c = 32) cs = [] \<or> hd (dropWhile (\<lambda>c. c = 32) cs) \<noteq> 32"
      using hd_dropWhile [of "\<lambda>c. c = 32" cs] by blast
    then have "collapse_ws (\<lambda>c. c = 32) (dropWhile (\<lambda>c. c = 32) cs) = []
             \<or> hd (collapse_ws (\<lambda>c. c = 32) (dropWhile (\<lambda>c. c = 32) cs)) \<noteq> 32"
    proof (cases "dropWhile (\<lambda>c. c = 32) cs")
      case Nil
      show ?thesis unfolding Nil by simp
    next
      case (Cons e es)
      assume "dropWhile (\<lambda>c. c = 32) cs = [] \<or> hd (dropWhile (\<lambda>c. c = 32) cs) \<noteq> 32"
      with Cons have "e \<noteq> 32" by simp
      with Cons show ?thesis by simp
    qed
    moreover from True "2.hyps"(1)
    have "no_pair (\<lambda>c. c = 32) (\<lambda>c. c = 32)
            (collapse_ws (\<lambda>c. c = 32) (dropWhile (\<lambda>c. c = 32) cs))"
      by simp
    ultimately show ?thesis
      using True by (simp add: no_pair_Cons)
  next
    case False
    with "2.hyps"(2) show ?thesis
      by (auto simp: no_pair_Cons)
  qed
qed

lemma no_pair_dropWhile: "no_pair P Q s \<Longrightarrow> no_pair P Q (dropWhile p s)"
  by (induction s) (auto simp: no_pair_Cons)

lemma no_pair_rev: "no_pair P Q (rev s) = no_pair Q P s"
proof -
  have "successively (\<lambda>x y. \<not> (P y \<and> Q x)) s = successively (\<lambda>a b. \<not> (Q a \<and> P b)) s"
    by (rule successively_cong) auto
  then show ?thesis
    by (simp only: no_pair_def successively_rev)
qed

lemma strip_keeps: "no_pair P Q s \<Longrightarrow> no_pair P Q (strip sp s)"
  by (simp add: strip_def no_pair_rev no_pair_dropWhile)

lemma last_dropWhile_eq: "dropWhile p xs \<noteq> [] \<Longrightarrow> last (dropWhile p xs) = last xs"
  by (induction xs) auto

lemma strip_trimmed: "trimmed (strip (\<lambda>c. c = 32) s)"
proof -
  define a where "a = dropWhile (\<lambda>c. c = 32) s"
  define b where "b = dropWhile (\<lambda>c. c = 32) (rev a)"
  have st: "strip (\<lambda>c. c = 32) s = rev b"
    by (simp add: strip_def a_def b_def)
  show ?thesis
  proof (cases "b = []")
    case True
    with st show ?thesis by (simp add: trimmed_def)
  next
    case False
    then have hb: "hd b \<noteq> 32"
      unfolding b_def using hd_dropWhile [of "\<lambda>c. c = 32" "rev a"] by blast
    from False have ne: "a \<noteq> []"
      by (auto simp: b_def)
    then have ha: "hd a \<noteq> 32"
      unfolding a_def using hd_dropWhile [of "\<lambda>c. c = 32" s] by blast
    from False have "last b = last (rev a)"
      unfolding b_def by (rule last_dropWhile_eq)
    with ne have lb: "last b = hd a"
      by (simp add: last_rev)
    from False hb have "last (rev b) \<noteq> 32"
      by (simp add: last_rev)
    moreover from False lb ha have "hd (rev b) \<noteq> 32"
      by (simp add: hd_rev)
    ultimately show ?thesis
      using st by (simp add: trimmed_def)
  qed
qed

lemma strip_fixed: "trimmed s \<Longrightarrow> strip (\<lambda>c. c = 32) s = s"
proof (cases s)
  case Nil
  then show ?thesis by (simp add: strip_def)
next
  case (Cons c cs)
  assume "trimmed s"
  with Cons have h: "c \<noteq> 32" and l: "last s \<noteq> 32"
    by (auto simp: trimmed_def)
  from Cons have "s \<noteq> []" by simp
  with l have "hd (rev s) \<noteq> 32"
    by (simp add: hd_rev)
  then have "dropWhile (\<lambda>c. c = 32) (rev s) = rev s"
    by (cases "rev s") auto
  with h Cons show ?thesis
    by (simp add: strip_def)
qed

subsection \<open>Underscores\<close>

lemma match_us_space:
  "match_us (\<lambda>c. c = 32) (c # cs) =
     (if c = 32 then match_us (\<lambda>c. c = 32) cs
      else if c = 95 then Some (dropWhile (\<lambda>c. c = 32) cs) else None)"
  by (auto split: option.splits)

lemma match_us_rest:
  "match_us (\<lambda>c. c = 32) s = Some r \<Longrightarrow> r = [] \<or> hd r \<noteq> 32"
proof (induction s)
  case Nil
  then show ?case by simp
next
  case (Cons c cs)
  have "dropWhile (\<lambda>c. c = 32) cs = [] \<or> hd (dropWhile (\<lambda>c. c = 32) cs) \<noteq> 32"
    using hd_dropWhile [of "\<lambda>c. c = 32" cs] by blast
  with Cons show ?case
    by (auto simp: match_us_space simp del: match_us.simps split: if_splits)
qed

lemma sub_us_Nil_iff [simp]: "sub_us sp s = [] \<longleftrightarrow> s = []"
  by (cases s) (auto split: option.splits simp del: match_us.simps)

lemma sub_us_hd:
  "s \<noteq> [] \<Longrightarrow>
   hd (sub_us sp s) = (case match_us sp s of None \<Rightarrow> hd s | Some r \<Rightarrow> 95)"
  by (cases s) (auto split: option.splits simp del: match_us.simps)

lemma match_us_none_space:
  "no_pair (\<lambda>c. c = 32) (\<lambda>c. c = 95) (32 # cs) \<Longrightarrow> match_us (\<lambda>c. c = 32) (32 # cs) = None"
proof (induction cs)
  case Nil
  show ?case by simp
next
  case (Cons c cs)
  from Cons.prems have c: "c \<noteq> 95" and n: "no_pair (\<lambda>c. c = 32) (\<lambda>c. c = 95) (c # cs)"
    by (auto simp: no_pair_Cons)
  show ?case
  proof (cases "c = 32")
    case True
    with n Cons.IH have "match_us (\<lambda>c. c = 32) (32 # cs) = None" by simp
    with True show ?thesis
      by (simp add: match_us_space del: match_us.simps)
  next
    case False
    with c show ?thesis
      by (simp add: match_us_space del: match_us.simps)
  qed
qed

lemma sub_us_fixed:
  "no_pair (\<lambda>c. c = 32) (\<lambda>c. c = 95) s \<Longrightarrow> no_pair (\<lambda>c. c = 95) (\<lambda>c. c = 32) s \<Longrightarrow>
   sub_us (\<lambda>c. c = 32) s = s"
proof (induction s)
  case Nil
  show ?case by simp
next
  case (Cons c cs)
  from Cons.prems have n1: "no_pair (\<lambda>c. c = 32) (\<lambda>c. c = 95) cs"
    and n2: "no_pair (\<lambda>c. c = 95) (\<lambda>c. c = 32) cs"
    by (auto simp: no_pair_Cons)
  note ih = Cons.IH [OF n1 n2]
  consider "c = 32" | "c = 95" | "c \<noteq> 32 \<and> c \<noteq> 95" by blast
  then show ?case
  proof cases
    case 1
    with Cons.prems(1) have "no_pair (\<lambda>c. c = 32) (\<lambda>c. c = 95) (32 # cs)"
      by simp
    then have "match_us (\<lambda>c. c = 32) (32 # cs) = None"
      by (rule match_us_none_space)
    with 1 ih show ?thesis
      by (simp del: match_us.simps)
  next
    case 2
    with Cons.prems(2) have "cs = [] \<or> hd cs \<noteq> 32"
      by (auto simp: no_pair_Cons)
    then have "dropWhile (\<lambda>c. c = 32) cs = cs"
      by (cases cs) auto
    with 2 ih show ?thesis
      by (simp add: match_us_space del: match_us.simps)
  next
    case 3
    with ih show ?thesis
      by (simp add: match_us_space del: match_us.simps)
  qed
qed

lemma no_pair_suffix: "no_pair A B (p @ r) \<Longrightarrow> no_pair A B r"
  by (simp add: no_pair_def successively_append_iff)

lemma sub_us_keeps:
  "\<not> A 95 \<Longrightarrow> \<not> B 95 \<Longrightarrow> no_pair A B s \<Longrightarrow> no_pair A B (sub_us sp s)"
proof (induction sp s rule: sub_us.induct)
  case (1 sp)
  show ?case by simp
next
  case (2 sp c cs)
  show ?case
  proof (cases "match_us sp (c # cs)")
    case None
    from "2.prems"(3) have n: "no_pair A B cs"
      by (auto simp: no_pair_Cons)
    from "2.IH"(1) [OF None "2.prems"(1,2) n] have ih: "no_pair A B (sub_us sp cs)" .
    have "cs \<noteq> [] \<Longrightarrow> \<not> (A c \<and> B (hd (sub_us sp cs)))"
      using "2.prems"(2,3) by (auto simp: sub_us_hd no_pair_Cons split: option.splits)
    with None ih show ?thesis
      by (auto simp: no_pair_Cons simp del: match_us.simps)
  next
    case (Some r)
    then obtain p where "c # cs = p @ r"
      using match_us_suffix by blast
    with "2.prems"(3) have n: "no_pair A B r"
      using no_pair_suffix by metis
    from "2.IH"(2) [OF Some "2.prems"(1,2) n] have "no_pair A B (sub_us sp r)" .
    with Some "2.prems"(1) show ?thesis
      by (auto simp: no_pair_Cons simp del: match_us.simps)
  qed
qed

lemma sub_us_clean:
  "no_pair (\<lambda>c. c = 32) (\<lambda>c. c = 95) (sub_us (\<lambda>c. c = 32) s)
   \<and> no_pair (\<lambda>c. c = 95) (\<lambda>c. c = 32) (sub_us (\<lambda>c. c = 32) s)"
proof (induction "\<lambda>c::nat. c = 32" s rule: sub_us.induct)
  case 1
  show ?case by simp
next
  case (2 c cs)
  show ?case
  proof (cases "match_us (\<lambda>c. c = 32) (c # cs)")
    case None
    then have c95: "c \<noteq> 95"
      by (auto simp: match_us_space simp del: match_us.simps split: if_splits)
    have h: "cs \<noteq> [] \<Longrightarrow> c = 32 \<Longrightarrow> hd (sub_us (\<lambda>c. c = 32) cs) \<noteq> 95"
    proof -
      assume ne: "cs \<noteq> []" and c: "c = 32"
      with None have m: "match_us (\<lambda>c. c = 32) cs = None"
        by (simp add: match_us_space del: match_us.simps)
      from ne obtain e es where es: "cs = e # es" by (cases cs) auto
      with m have "e \<noteq> 95"
        by (auto simp: match_us_space simp del: match_us.simps split: if_splits)
      with ne m es show ?thesis
        by (simp add: sub_us_hd del: match_us.simps)
    qed
    from "2.hyps"(1) [OF None] None c95 h show ?thesis
      by (auto simp: no_pair_Cons simp del: match_us.simps)
  next
    case (Some r)
    then have "r = [] \<or> hd r \<noteq> 32"
      by (rule match_us_rest)
    then have "r \<noteq> [] \<Longrightarrow> hd (sub_us (\<lambda>c. c = 32) r) \<noteq> 32"
      by (auto simp: sub_us_hd split: option.splits)
    with "2.hyps"(2) [OF Some] Some show ?thesis
      by (auto simp: no_pair_Cons simp del: match_us.simps)
  qed
qed

lemma sub_us_last:
  "s \<noteq> [] \<Longrightarrow> last s \<noteq> 32 \<Longrightarrow> last (sub_us sp s) \<noteq> 32"
proof (induction sp s rule: sub_us.induct)
  case (1 sp)
  then show ?case by simp
next
  case (2 sp c cs)
  show ?case
  proof (cases "match_us sp (c # cs)")
    case None
    show ?thesis
    proof (cases "cs = []")
      case True
      with None "2.prems" show ?thesis
        by (simp del: match_us.simps)
    next
      case False
      with "2.prems" have "last cs \<noteq> 32" by simp
      from "2.IH"(1) [OF None False this] None False show ?thesis
        by (simp del: match_us.simps)
    qed
  next
    case (Some r)
    show ?thesis
    proof (cases "r = []")
      case True
      with Some show ?thesis
        by (simp del: match_us.simps)
    next
      case False
      from Some obtain p where "c # cs = p @ r"
        using match_us_suffix by blast
      with False "2.prems" have "last r \<noteq> 32"
        by (metis last_appendR)
      from "2.IH"(2) [OF Some False this] Some False show ?thesis
        by (simp del: match_us.simps)
    qed
  qed
qed

lemma sub_us_trimmed: "trimmed s \<Longrightarrow> trimmed (sub_us (\<lambda>c. c = 32) s)"
proof (cases "s = []")
  case True
  then show ?thesis by (simp add: trimmed_def)
next
  case False
  assume "trimmed s"
  with False have h: "hd s \<noteq> 32" and l: "last s \<noteq> 32"
    by (auto simp: trimmed_def)
  from False h have "hd (sub_us (\<lambda>c. c = 32) s) \<noteq> 32"
    by (auto simp: sub_us_hd split: option.splits)
  with sub_us_last [OF False l] show ?thesis
    by (simp add: trimmed_def)
qed

subsection \<open>The customer rule on its own output\<close>

lemma class_facts:
  "\<not> ascii_letter 32" "\<not> ascii_digit 32" "\<not> ascii_letter 95" "\<not> ascii_digit 95"
  "\<not> ascii_lower 32" "\<not> ascii_upper 32" "\<not> ascii_digit 120" "ascii_letter 120"
  "ascii_lower 120" "\<not> ascii_upper 120" "\<not> is_x 32" "\<not> is_x 95"
  by (simp_all add: ascii_letter_def ascii_digit_def ascii_lower_def ascii_upper_def is_x_def)

lemma class_disjoint:
  "ascii_digit c \<Longrightarrow> \<not> ascii_letter c" "ascii_upper c \<Longrightarrow> \<not> ascii_lower c"
  "ascii_digit c \<Longrightarrow> \<not> is_x c" "ascii_digit c \<Longrightarrow> c \<noteq> 32" "ascii_letter c \<Longrightarrow> c \<noteq> 32"
  "is_x c \<Longrightarrow> ascii_letter c" "ascii_digit c \<Longrightarrow> c \<noteq> 95" "ascii_letter c \<Longrightarrow> c \<noteq> 95"
  by (auto simp: ascii_letter_def ascii_digit_def ascii_lower_def ascii_upper_def is_x_def)

lemma keep_cli_classes:
  assumes "ascii_exact L" and "keep_cli c"
  shows "re_digit L c = ascii_digit c" and "re_space L c = (c = 32)" and "c < 128" and "c \<noteq> 44"
proof -
  from assms(2) show c: "c < 128" and "c \<noteq> 44"
    by (auto simp: keep_cli_def ascii_letter_def ascii_digit_def ascii_lower_def ascii_upper_def)
  with assms(1) show "re_digit L c = ascii_digit c"
    by (simp add: ascii_exact_def)
  from c assms(1) have "re_space L c = ascii_space c"
    by (simp add: ascii_exact_def)
  with assms(2) show "re_space L c = (c = 32)"
    by (auto simp: keep_cli_def ascii_space_def ascii_letter_def ascii_digit_def
        ascii_lower_def ascii_upper_def)
qed

text \<open>The substitutions add no character but the space, the underscore and \<open>x\<close>.\<close>

lemma collapse_ws_set: "set (collapse_ws sp s) \<subseteq> insert 32 (set s)"
proof (induction sp s rule: collapse_ws.induct)
  case (1 sp)
  show ?case by simp
next
  case (2 sp c cs)
  have "set (dropWhile sp cs) \<subseteq> set cs"
    by (auto dest: set_dropWhileD)
  with 2 show ?case by auto
qed

lemma strip_set: "set (strip sp s) \<subseteq> set s"
  by (auto simp: strip_def dest!: set_dropWhileD)

lemma sub_pair_set: "set (sub_pair P Q s) \<subseteq> insert 32 (set s)"
  by (induction P Q s rule: sub_pair.induct) auto

lemma sub_us_set: "set (sub_us sp s) \<subseteq> insert 95 (set s)"
proof (induction sp s rule: sub_us.induct)
  case (1 sp)
  show ?case by simp
next
  case (2 sp c cs)
  show ?case
  proof (cases "match_us sp (c # cs)")
    case None
    with "2.IH"(1) show ?thesis
      by (auto simp del: match_us.simps)
  next
    case (Some r)
    then obtain p where "c # cs = p @ r"
      using match_us_suffix by blast
    then have "set r \<subseteq> set (c # cs)"
      by (metis set_append sup_ge2)
    with "2.IH"(2) [OF Some] Some show ?thesis
      by (auto simp del: match_us.simps)
  qed
qed

lemma sub_x_set: "set (sub_x d sp s) \<subseteq> insert 120 (set s)"
proof (induction d sp s rule: sub_x.induct)
  case (1 d sp)
  show ?case by simp
next
  case (2 d sp c cs)
  show ?case
  proof (cases "d c")
    case True
    show ?thesis
    proof (cases "match_x d sp cs")
      case None
      with True "2.IH"(1) show ?thesis by auto
    next
      case (Some er)
      obtain e r where er: "er = (e, r)" by (cases er)
      with Some obtain p where "cs = p @ e # r"
        using match_x_decomp by blast
      then have "set r \<subseteq> set cs" and "e \<in> set cs" by auto
      with "2.IH"(2) [OF True Some er [symmetric]] True Some er show ?thesis
        by auto
    qed
  next
    case False
    with "2.IH"(3) show ?thesis by auto
  qed
qed

lemma keep_cli_closed:
  assumes "list_all keep_cli s"
  shows "list_all keep_cli (collapse_ws sp s)" and "list_all keep_cli (strip sp s)"
    and "list_all keep_cli (sub_pair P Q s)" and "list_all keep_cli (sub_us sp s)"
    and "list_all keep_cli (sub_x d sp s)"
proof -
  have k: "keep_cli 32" "keep_cli 95" "keep_cli 120"
    by (simp_all add: keep_cli_def ascii_letter_def ascii_lower_def)
  from assms have s: "\<And>c. c \<in> set s \<Longrightarrow> keep_cli c"
    by (simp add: list_all_iff)
  show "list_all keep_cli (collapse_ws sp s)"
    using collapse_ws_set [of sp s] k s by (auto simp: list_all_iff)
  show "list_all keep_cli (strip sp s)"
    using strip_set [of sp s] s by (auto simp: list_all_iff)
  show "list_all keep_cli (sub_pair P Q s)"
    using sub_pair_set [of P Q s] k s by (auto simp: list_all_iff)
  show "list_all keep_cli (sub_us sp s)"
    using sub_us_set [of sp s] k s by (auto simp: list_all_iff)
  show "list_all keep_cli (sub_x d sp s)"
    using sub_x_set [of d sp s] k s by (auto simp: list_all_iff)
qed

text \<open>
  On texts over letters, digits, underscore and space, a library that is exact on ASCII
  has the ASCII digits for \<open>\d\<close> and the space for \<open>\s\<close>.
\<close>

lemma ascii_classes:
  assumes "ascii_exact L" and "list_all keep_cli s"
  shows "collapse_ws (re_space L) s = collapse_ws (\<lambda>c. c = 32) s"
    and "strip (re_space L) s = strip (\<lambda>c. c = 32) s"
    and "sub_pair ascii_letter (re_digit L) s = sub_pair ascii_letter ascii_digit s"
    and "sub_pair (re_digit L) ascii_letter s = sub_pair ascii_digit ascii_letter s"
    and "sub_us (re_space L) s = sub_us (\<lambda>c. c = 32) s"
    and "sub_x (re_digit L) (re_space L) s = sub_x ascii_digit (\<lambda>c. c = 32) s"
    and "size_fullmatch (re_digit L) s = size_fullmatch ascii_digit s"
proof -
  from assms have k: "\<And>c. c \<in> set s \<Longrightarrow> re_digit L c = ascii_digit c \<and> re_space L c = (c = 32)"
    by (simp add: list_all_iff keep_cli_classes)
  show "collapse_ws (re_space L) s = collapse_ws (\<lambda>c. c = 32) s"
    by (rule collapse_ws_cong) (simp add: k)
  show "strip (re_space L) s = strip (\<lambda>c. c = 32) s"
    by (rule strip_cong) (simp add: k)
  show "sub_pair ascii_letter (re_digit L) s = sub_pair ascii_letter ascii_digit s"
    by (rule sub_pair_cong) (simp add: k)
  show "sub_pair (re_digit L) ascii_letter s = sub_pair ascii_digit ascii_letter s"
    by (rule sub_pair_cong) (simp add: k)
  show "sub_us (re_space L) s = sub_us (\<lambda>c. c = 32) s"
    by (rule sub_us_cong) (simp add: k)
  show "sub_x (re_digit L) (re_space L) s = sub_x ascii_digit (\<lambda>c. c = 32) s"
    by (rule sub_x_cong) (simp add: k)
  show "size_fullmatch (re_digit L) s = size_fullmatch ascii_digit s"
    by (rule size_fullmatch_cong) (simp add: k)
qed

text \<open>Lines 83 to 87 with the ASCII classes.\<close>

definition cliente_ascii :: "ustr \<Rightarrow> ustr" where
  "cliente_ascii w =
     strip (\<lambda>c. c = 32) (sub_us (\<lambda>c. c = 32)
       (sub_pair ascii_digit ascii_letter (sub_pair ascii_letter ascii_digit
          (strip (\<lambda>c. c = 32) (collapse_ws (\<lambda>c. c = 32) w)))))"

lemma regra_cliente_ascii:
  assumes "ascii_exact L" and "list_all keep_cli w"
  shows "strip (re_space L) (sub_us (re_space L)
           (sub_pair (re_digit L) ascii_letter (sub_pair ascii_letter (re_digit L)
              (strip (re_space L) (collapse_ws (re_space L) w)))))
         = cliente_ascii w"
  using assms
  by (simp add: cliente_ascii_def ascii_classes keep_cli_closed)

lemma cliente_ascii_shape:
  assumes "list_all keep_cli w"
  defines "y \<equiv> cliente_ascii w"
  shows "list_all keep_cli y"
    and "no_pair (\<lambda>c. c = 32) (\<lambda>c. c = 32) y"
    and "trimmed y"
    and "no_pair ascii_letter ascii_digit y"
    and "no_pair ascii_digit ascii_letter y"
    and "no_pair (\<lambda>c. c = 32) (\<lambda>c. c = 95) y"
    and "no_pair (\<lambda>c. c = 95) (\<lambda>c. c = 32) y"
proof -
  define a where "a = strip (\<lambda>c. c = 32) (collapse_ws (\<lambda>c. c = 32) w)"
  define b where "b = sub_pair ascii_letter ascii_digit a"
  define c where "c = sub_pair ascii_digit ascii_letter b"
  define e where "e = sub_us (\<lambda>c. c = 32) c"
  have a1: "no_pair (\<lambda>c. c = 32) (\<lambda>c. c = 32) a"
    unfolding a_def by (intro strip_keeps collapse_single)
  have a2: "trimmed a"
    unfolding a_def by (rule strip_trimmed)
  have b1: "no_pair (\<lambda>c. c = 32) (\<lambda>c. c = 32) b"
    unfolding b_def using a1 by (intro sub_pair_keeps) (auto dest: class_disjoint)
  have b2: "trimmed b"
    unfolding b_def using a2 by (rule sub_pair_trimmed)
  have b3: "no_pair ascii_letter ascii_digit b"
    unfolding b_def by (intro sub_pair_splits) (auto simp: class_facts dest: class_disjoint)
  have c1: "no_pair (\<lambda>c. c = 32) (\<lambda>c. c = 32) c"
    unfolding c_def using b1 by (intro sub_pair_keeps) (auto dest: class_disjoint)
  have c2: "trimmed c"
    unfolding c_def using b2 by (rule sub_pair_trimmed)
  have c3: "no_pair ascii_letter ascii_digit c"
    unfolding c_def using b3 by (intro sub_pair_keeps) (auto simp: class_facts)
  have c4: "no_pair ascii_digit ascii_letter c"
    unfolding c_def by (intro sub_pair_splits) (auto simp: class_facts dest: class_disjoint)
  have e1: "no_pair (\<lambda>c. c = 32) (\<lambda>c. c = 32) e"
    unfolding e_def using c1 by (intro sub_us_keeps) auto
  have e2: "trimmed e"
    unfolding e_def using c2 by (rule sub_us_trimmed)
  have e3: "no_pair ascii_letter ascii_digit e"
    unfolding e_def using c3 by (intro sub_us_keeps) (auto simp: class_facts)
  have e4: "no_pair ascii_digit ascii_letter e"
    unfolding e_def using c4 by (intro sub_us_keeps) (auto simp: class_facts)
  have e5: "no_pair (\<lambda>c. c = 32) (\<lambda>c. c = 95) e" "no_pair (\<lambda>c. c = 95) (\<lambda>c. c = 32) e"
    unfolding e_def using sub_us_clean by auto
  have ye: "y = e"
    unfolding y_def cliente_ascii_def using strip_fixed [OF e2]
    by (simp add: e_def c_def b_def a_def)
  show "list_all keep_cli y"
    unfolding y_def cliente_ascii_def using assms(1) by (intro keep_cli_closed)
  from ye e1 e2 e3 e4 e5
  show "no_pair (\<lambda>c. c = 32) (\<lambda>c. c = 32) y" "trimmed y" "no_pair ascii_letter ascii_digit y"
    "no_pair ascii_digit ascii_letter y" "no_pair (\<lambda>c. c = 32) (\<lambda>c. c = 95) y"
    "no_pair (\<lambda>c. c = 95) (\<lambda>c. c = 32) y"
    by simp_all
qed

lemma filter_keep: "list_all K s \<Longrightarrow> filter K s = s"
  by (simp add: list_all_iff filter_id_conv)

lemma cliente_ascii_fixed:
  assumes "list_all keep_cli w"
  shows "cliente_ascii (cliente_ascii w) = cliente_ascii w"
    and "sub_us (\<lambda>c. c = 32) (cliente_ascii w) = cliente_ascii w"
proof -
  note s = cliente_ascii_shape [OF assms]
  show u: "sub_us (\<lambda>c. c = 32) (cliente_ascii w) = cliente_ascii w"
    using s(6,7) by (rule sub_us_fixed)
  show "cliente_ascii (cliente_ascii w) = cliente_ascii w"
    by (subst (1) cliente_ascii_def)
       (simp add: collapse_fixed [OF s(2)] strip_fixed [OF s(3)] sub_pair_fixed [OF s(4)]
          sub_pair_fixed [OF s(5)] u)
qed

subsection \<open>The separator of sizes\<close>

lemma match_sp_digit_ascii:
  "match_sp_digit ascii_digit (\<lambda>c. c = 32) (c # cs) =
     (if c = 32 then match_sp_digit ascii_digit (\<lambda>c. c = 32) cs
      else if ascii_digit c then Some (c, cs) else None)"
  by (auto simp: class_facts split: option.splits)

lemma match_x_ascii:
  "match_x ascii_digit (\<lambda>c. c = 32) (c # cs) =
     (if c = 32 then match_x ascii_digit (\<lambda>c. c = 32) cs
      else if is_x c then match_sp_digit ascii_digit (\<lambda>c. c = 32) cs else None)"
  by (auto simp: class_facts split: option.splits)

lemma match_sp_digit_shape:
  "match_sp_digit ascii_digit (\<lambda>c. c = 32) s = Some (e, r) \<Longrightarrow>
   \<exists>p. s = p @ e # r \<and> ascii_digit e \<and> 95 \<notin> set p"
proof (induction s)
  case Nil
  then show ?case by simp
next
  case (Cons c cs)
  show ?case
  proof (cases "c = 32")
    case True
    with Cons.prems have "match_sp_digit ascii_digit (\<lambda>c. c = 32) cs = Some (e, r)"
      by (simp add: match_sp_digit_ascii del: match_sp_digit.simps)
    with Cons.IH obtain p where "cs = p @ e # r \<and> ascii_digit e \<and> 95 \<notin> set p"
      by blast
    with True have "c # cs = (c # p) @ e # r \<and> ascii_digit e \<and> 95 \<notin> set (c # p)"
      by simp
    then show ?thesis by blast
  next
    case False
    with Cons.prems have "c = e \<and> cs = r \<and> ascii_digit e"
      by (auto simp: match_sp_digit_ascii simp del: match_sp_digit.simps split: if_splits)
    then have "c # cs = [] @ e # r \<and> ascii_digit e \<and> 95 \<notin> set []"
      by simp
    then show ?thesis by blast
  qed
qed

lemma match_x_shape:
  "match_x ascii_digit (\<lambda>c. c = 32) s = Some (e, r) \<Longrightarrow>
   \<exists>p. s = p @ e # r \<and> ascii_digit e \<and> 95 \<notin> set p"
proof (induction s)
  case Nil
  then show ?case by simp
next
  case (Cons c cs)
  show ?case
  proof (cases "c = 32")
    case True
    with Cons.prems have "match_x ascii_digit (\<lambda>c. c = 32) cs = Some (e, r)"
      by (simp add: match_x_ascii del: match_x.simps)
    with Cons.IH obtain p where "cs = p @ e # r \<and> ascii_digit e \<and> 95 \<notin> set p"
      by blast
    with True have "c # cs = (c # p) @ e # r \<and> ascii_digit e \<and> 95 \<notin> set (c # p)"
      by simp
    then show ?thesis by blast
  next
    case False
    with Cons.prems have x: "is_x c"
      and m: "match_sp_digit ascii_digit (\<lambda>c. c = 32) cs = Some (e, r)"
      by (auto simp: match_x_ascii simp del: match_x.simps split: if_splits)
    from m obtain p where "cs = p @ e # r \<and> ascii_digit e \<and> 95 \<notin> set p"
      using match_sp_digit_shape by blast
    with x have "c # cs = (c # p) @ e # r \<and> ascii_digit e \<and> 95 \<notin> set (c # p)"
      by (auto simp: is_x_def)
    then show ?thesis by blast
  qed
qed

lemma sub_x_Nil_iff [simp]: "sub_x d sp s = [] \<longleftrightarrow> s = []"
  by (cases s) (auto split: option.splits)

lemma sub_x_hd [simp]: "hd (sub_x d sp s) = hd s"
  by (cases s) (auto split: option.splits)

lemma sub_x_Cons_hd: "\<exists>t. sub_x d sp (c # cs) = c # t"
  by (auto split: option.splits)

lemma sub_x_last: "last (sub_x d sp s) = last s"
proof (induction d sp s rule: sub_x.induct)
  case (1 d sp)
  show ?case by simp
next
  case (2 d sp c cs)
  show ?case
  proof (cases "d c")
    case True
    show ?thesis
    proof (cases "match_x d sp cs")
      case None
      with True "2.IH"(1) show ?thesis by simp
    next
      case (Some er)
      obtain e r where er: "er = (e, r)" by (cases er)
      with Some obtain p where p: "cs = p @ e # r"
        using match_x_decomp by blast
      from "2.IH"(2) [OF True Some er [symmetric]] have "last (sub_x d sp r) = last r" .
      with True Some er p show ?thesis by simp
    qed
  next
    case False
    with "2.IH"(3) show ?thesis by simp
  qed
qed

lemma sub_x_trimmed: "trimmed s \<Longrightarrow> trimmed (sub_x d sp s)"
  by (simp add: trimmed_def sub_x_last)

lemma sub_x_keeps:
  "\<forall>c. ascii_digit c \<longrightarrow> \<not> (A c \<and> B 120) \<and> \<not> (A 120 \<and> B c) \<Longrightarrow>
   no_pair A B s \<Longrightarrow> no_pair A B (sub_x ascii_digit (\<lambda>c. c = 32) s)"
proof (induction ascii_digit "\<lambda>c::nat. c = 32" s rule: sub_x.induct)
  case 1
  show ?case by simp
next
  case (2 c cs)
  from "2.prems"(2) have n: "no_pair A B cs" and h: "cs = [] \<or> \<not> (A c \<and> B (hd cs))"
    by (auto simp: no_pair_Cons)
  show ?case
  proof (cases "ascii_digit c")
    case True
    show ?thesis
    proof (cases "match_x ascii_digit (\<lambda>c. c = 32) cs")
      case None
      from "2.hyps"(1) [OF True None "2.prems"(1) n] True None h show ?thesis
        by (auto simp: no_pair_Cons)
    next
      case (Some er)
      obtain e r where er: "er = (e, r)" by (cases er)
      with Some obtain p where p: "cs = p @ e # r" and e: "ascii_digit e"
        using match_x_shape by blast
      from p n have "no_pair A B (e # r)"
        using no_pair_suffix by blast
      then have r: "no_pair A B r" and hr: "r = [] \<or> \<not> (A e \<and> B (hd r))"
        by (auto simp: no_pair_Cons)
      from "2.hyps"(2) [OF True Some er [symmetric] "2.prems"(1) r]
      have "no_pair A B (sub_x ascii_digit (\<lambda>c. c = 32) r)" .
      with True Some er e hr "2.prems"(1) show ?thesis
        by (auto simp: no_pair_Cons)
    qed
  next
    case False
    from "2.hyps"(3) [OF False "2.prems"(1) n] False h show ?thesis
      by (auto simp: no_pair_Cons)
  qed
qed

text \<open>
  \<open>unjoin\<close> finds the matches of lines 69 and 77 as \<open>sub_x\<close> does, and writes each
  as digit, space, \<open>x\<close>, space, digit.
\<close>

function unjoin :: "ustr \<Rightarrow> ustr" where
  "unjoin [] = []"
| "unjoin (c # cs) =
     (if ascii_digit c then
        (case match_x ascii_digit (\<lambda>c. c = 32) cs of
           Some (e, r) \<Rightarrow> c # 32 # 120 # 32 # e # unjoin r
         | None \<Rightarrow> c # unjoin cs)
      else c # unjoin cs)"
  by pat_completeness auto
termination
  by (relation "measure length") (auto dest: match_x_shorter simp: less_Suc_eq)

lemma match_sp_digit_none_keeps:
  assumes "F [] = []" and "\<And>c cs. \<exists>t. F (c # cs) = c # t"
    and "\<And>c cs. \<not> ascii_digit c \<Longrightarrow> F (c # cs) = c # F cs"
  shows "match_sp_digit ascii_digit (\<lambda>c. c = 32) s = None \<Longrightarrow>
         match_sp_digit ascii_digit (\<lambda>c. c = 32) (F s) = None"
proof (induction s)
  case Nil
  show ?case by (simp add: assms(1))
next
  case (Cons c cs)
  show ?case
  proof (cases "c = 32")
    case True
    with Cons.prems have "match_sp_digit ascii_digit (\<lambda>c. c = 32) cs = None"
      by (simp add: match_sp_digit_ascii del: match_sp_digit.simps)
    then have "match_sp_digit ascii_digit (\<lambda>c. c = 32) (F cs) = None"
      by (rule Cons.IH)
    moreover from True have "F (c # cs) = c # F cs"
      by (simp add: assms(3) class_facts)
    ultimately show ?thesis
      using True by (simp add: match_sp_digit_ascii del: match_sp_digit.simps)
  next
    case False
    with Cons.prems have d: "\<not> ascii_digit c"
      by (auto simp: match_sp_digit_ascii simp del: match_sp_digit.simps split: if_splits)
    from assms(2) obtain t where "F (c # cs) = c # t" by blast
    with False d show ?thesis
      by (simp add: match_sp_digit_ascii del: match_sp_digit.simps)
  qed
qed

lemma match_x_none_keeps:
  assumes "F [] = []" and "\<And>c cs. \<exists>t. F (c # cs) = c # t"
    and "\<And>c cs. \<not> ascii_digit c \<Longrightarrow> F (c # cs) = c # F cs"
  shows "match_x ascii_digit (\<lambda>c. c = 32) s = None \<Longrightarrow>
         match_x ascii_digit (\<lambda>c. c = 32) (F s) = None"
proof (induction s)
  case Nil
  show ?case by (simp add: assms(1))
next
  case (Cons c cs)
  consider "c = 32" | "c \<noteq> 32 \<and> is_x c" | "c \<noteq> 32 \<and> \<not> is_x c" by blast
  then show ?case
  proof cases
    case 1
    with Cons.prems have "match_x ascii_digit (\<lambda>c. c = 32) cs = None"
      by (simp add: match_x_ascii del: match_x.simps)
    then have "match_x ascii_digit (\<lambda>c. c = 32) (F cs) = None"
      by (rule Cons.IH)
    moreover from 1 have "F (c # cs) = c # F cs"
      by (simp add: assms(3) class_facts)
    ultimately show ?thesis
      using 1 by (simp add: match_x_ascii del: match_x.simps)
  next
    case 2
    with Cons.prems have "match_sp_digit ascii_digit (\<lambda>c. c = 32) cs = None"
      by (simp add: match_x_ascii del: match_x.simps)
    then have "match_sp_digit ascii_digit (\<lambda>c. c = 32) (F cs) = None"
      using assms by (rule match_sp_digit_none_keeps [rotated 3])
    moreover from 2 have "\<not> ascii_digit c"
      using class_disjoint(3) by blast
    then have "F (c # cs) = c # F cs"
      by (rule assms(3))
    ultimately show ?thesis
      using 2 by (simp add: match_x_ascii del: match_x.simps)
  next
    case 3
    from assms(2) obtain t where "F (c # cs) = c # t" by blast
    with 3 show ?thesis
      by (simp add: match_x_ascii del: match_x.simps)
  qed
qed

lemma sub_x_none_keeps:
  "match_x ascii_digit (\<lambda>c. c = 32) s = None \<Longrightarrow>
   match_x ascii_digit (\<lambda>c. c = 32) (sub_x ascii_digit (\<lambda>c. c = 32) s) = None"
  by (rule match_x_none_keeps) (auto split: option.splits)

lemma unjoin_none_keeps:
  "match_x ascii_digit (\<lambda>c. c = 32) s = None \<Longrightarrow>
   match_x ascii_digit (\<lambda>c. c = 32) (unjoin s) = None"
  by (rule match_x_none_keeps) (auto split: option.splits)

lemma sub_x_idem:
  "sub_x ascii_digit (\<lambda>c. c = 32) (sub_x ascii_digit (\<lambda>c. c = 32) s)
     = sub_x ascii_digit (\<lambda>c. c = 32) s"
proof (induction ascii_digit "\<lambda>c::nat. c = 32" s rule: sub_x.induct)
  case 1
  show ?case by simp
next
  case (2 c cs)
  show ?case
  proof (cases "ascii_digit c")
    case True
    show ?thesis
    proof (cases "match_x ascii_digit (\<lambda>c. c = 32) cs")
      case None
      with True "2.hyps"(1) sub_x_none_keeps [OF None] show ?thesis
        by simp
    next
      case (Some er)
      obtain e r where er: "er = (e, r)" by (cases er)
      with Some have e: "ascii_digit e"
        using match_x_shape by blast
      then have "match_x ascii_digit (\<lambda>c. c = 32)
                   (120 # e # sub_x ascii_digit (\<lambda>c. c = 32) r)
                 = Some (e, sub_x ascii_digit (\<lambda>c. c = 32) r)"
        using class_disjoint(4) [OF e]
        by (simp add: match_x_ascii match_sp_digit_ascii is_x_def
            del: match_x.simps match_sp_digit.simps)
      with True Some er "2.hyps"(2) [OF True Some er [symmetric]] show ?thesis
        by simp
    qed
  next
    case False
    with "2.hyps"(3) show ?thesis by simp
  qed
qed

lemma sub_x_unjoin:
  "sub_x ascii_digit (\<lambda>c. c = 32) (unjoin s) = sub_x ascii_digit (\<lambda>c. c = 32) s"
proof (induction ascii_digit "\<lambda>c::nat. c = 32" s rule: sub_x.induct)
  case 1
  show ?case by simp
next
  case (2 c cs)
  show ?case
  proof (cases "ascii_digit c")
    case True
    show ?thesis
    proof (cases "match_x ascii_digit (\<lambda>c. c = 32) cs")
      case None
      with True "2.hyps"(1) unjoin_none_keeps [OF None] show ?thesis
        by simp
    next
      case (Some er)
      obtain e r where er: "er = (e, r)" by (cases er)
      with Some have e: "ascii_digit e"
        using match_x_shape by blast
      then have "match_x ascii_digit (\<lambda>c. c = 32) (32 # 120 # 32 # e # unjoin r)
                 = Some (e, unjoin r)"
        using class_disjoint(4) [OF e]
        by (simp add: match_x_ascii match_sp_digit_ascii is_x_def
            del: match_x.simps match_sp_digit.simps)
      with True Some er "2.hyps"(2) [OF True Some er [symmetric]] show ?thesis
        by simp
    qed
  next
    case False
    with "2.hyps"(3) show ?thesis by simp
  qed
qed

lemma sub_pair_skip:
  "s = [] \<or> \<not> (P a \<and> Q (hd s)) \<Longrightarrow> sub_pair P Q (a # s) = a # sub_pair P Q s"
  by (cases s) auto

lemma unjoin_split:
  "no_pair ascii_letter ascii_digit s \<Longrightarrow> no_pair ascii_digit ascii_letter s \<Longrightarrow>
   sub_pair ascii_digit ascii_letter
     (sub_pair ascii_letter ascii_digit (sub_x ascii_digit (\<lambda>c. c = 32) s)) = unjoin s"
proof (induction ascii_digit "\<lambda>c::nat. c = 32" s rule: sub_x.induct)
  case 1
  show ?case by simp
next
  case (2 c cs)
  let ?X = "sub_x ascii_digit (\<lambda>c. c = 32)"
  let ?ld = "sub_pair ascii_letter ascii_digit"
  let ?dl = "sub_pair ascii_digit ascii_letter"
  from "2.prems" have n1: "no_pair ascii_letter ascii_digit cs"
    and n2: "no_pair ascii_digit ascii_letter cs"
    and h1: "cs = [] \<or> \<not> (ascii_letter c \<and> ascii_digit (hd cs))"
    and h2: "cs = [] \<or> \<not> (ascii_digit c \<and> ascii_letter (hd cs))"
    by (auto simp: no_pair_Cons)
  have skip: "?dl (?ld (c # ?X cs)) = c # ?dl (?ld (?X cs))"
  proof -
    from h1 have "?ld (c # ?X cs) = c # ?ld (?X cs)"
      by (intro sub_pair_skip) auto
    moreover from h2 have "?dl (c # ?ld (?X cs)) = c # ?dl (?ld (?X cs))"
      by (intro sub_pair_skip) auto
    ultimately show ?thesis by simp
  qed
  show ?case
  proof (cases "ascii_digit c")
    case True
    show ?thesis
    proof (cases "match_x ascii_digit (\<lambda>c. c = 32) cs")
      case None
      with True skip "2.hyps"(1) [OF True None n1 n2] show ?thesis
        by simp
    next
      case (Some er)
      obtain e r where er: "er = (e, r)" by (cases er)
      with Some obtain p where p: "cs = p @ e # r" and e: "ascii_digit e"
        using match_x_shape by blast
      from p n1 n2 have "no_pair ascii_letter ascii_digit (e # r)"
        and "no_pair ascii_digit ascii_letter (e # r)"
        using no_pair_suffix by blast+
      then have r1: "no_pair ascii_letter ascii_digit r"
        and r2: "no_pair ascii_digit ascii_letter r"
        and hr: "r = [] \<or> \<not> ascii_letter (hd r)"
        using e by (auto simp: no_pair_Cons)
      note ih = "2.hyps"(2) [OF True Some er [symmetric] r1 r2]
      have cl: "\<not> ascii_letter c" and el: "\<not> ascii_letter e"
        using True e class_disjoint(1) by blast+
      have "?ld (c # 120 # e # ?X r) = c # 120 # 32 # e # ?ld (?X r)"
        using cl e by (simp add: class_facts)
      moreover have "?dl (c # 120 # 32 # e # ?ld (?X r))
                     = c # 32 # 120 # 32 # ?dl (e # ?ld (?X r))"
        using True by (simp add: class_facts)
      moreover from hr have "?dl (e # ?ld (?X r)) = e # ?dl (?ld (?X r))"
        by (intro sub_pair_skip) auto
      ultimately show ?thesis
        using True Some er ih by simp
    qed
  next
    case False
    with skip "2.hyps"(3) [OF False n1 n2] show ?thesis
      by simp
  qed
qed

subsection \<open>The size pattern on the output of the size rule\<close>

lemma all_digits_keep:
  "list_all ascii_digit s \<Longrightarrow> list_all keep_size s \<and> 32 \<notin> set s \<and> 10 \<notin> set s"
  by (induction s) (auto simp: keep_size_def ascii_digit_def)

lemma digits_x_digits_keep:
  "digits_x_digits ascii_digit s \<Longrightarrow>
   s \<noteq> [] \<and> list_all keep_size s \<and> 32 \<notin> set s \<and> ascii_digit (last s)"
proof (induction s)
  case Nil
  then show ?case by simp
next
  case (Cons c cs)
  show ?case
  proof (cases "is_x c \<and> all_digits ascii_digit cs")
    case True
    then have x: "keep_size c \<and> c \<noteq> 32"
      by (auto simp: keep_size_def is_x_def)
    from True have "cs \<noteq> []" and l: "list_all ascii_digit cs"
      by (auto simp: all_digits_def)
    then have "ascii_digit (last cs)"
      by (simp add: list_all_iff)
    with x all_digits_keep [OF l] \<open>cs \<noteq> []\<close> show ?thesis by simp
  next
    case False
    with Cons.prems have d: "ascii_digit c" and r: "digits_x_digits ascii_digit cs"
      by auto
    from d have "keep_size c \<and> c \<noteq> 32"
      by (auto simp: keep_size_def ascii_digit_def)
    with Cons.IH [OF r] show ?thesis by simp
  qed
qed

lemma size_tail_keep:
  "size_tail ascii_digit s \<Longrightarrow>
   s \<noteq> [] \<and> list_all keep_size s \<and> 32 \<notin> set s \<and> ascii_digit (last s)"
proof (cases s)
  case Nil
  assume "size_tail ascii_digit s"
  with Nil show ?thesis by simp
next
  case (Cons c cs)
  assume "size_tail ascii_digit s"
  with Cons have d: "ascii_digit c" and r: "digits_x_digits ascii_digit cs"
    by auto
  from d have "keep_size c \<and> c \<noteq> 32"
    by (auto simp: keep_size_def ascii_digit_def)
  with digits_x_digits_keep [OF r] Cons show ?thesis by simp
qed

lemma size_fullmatch_last:
  "size_fullmatch ascii_digit s \<Longrightarrow> s \<noteq> [] \<and> last s \<noteq> 32"
proof (induction s)
  case Nil
  then show ?case by simp
next
  case (Cons c cs)
  show ?case
  proof (cases "c = 95 \<and> size_tail ascii_digit cs")
    case True
    with size_tail_keep [of cs] have "cs \<noteq> []" and "ascii_digit (last cs)" by auto
    then show ?thesis
      using class_disjoint(4) by auto
  next
    case False
    with Cons.prems have "size_fullmatch ascii_digit cs" by auto
    with Cons.IH show ?thesis by auto
  qed
qed

lemma size_fullmatch_filter:
  "size_fullmatch ascii_digit s \<Longrightarrow> size_fullmatch ascii_digit (filter keep_size s)"
proof (induction s)
  case Nil
  then show ?case by simp
next
  case (Cons c cs)
  show ?case
  proof (cases "c = 95 \<and> size_tail ascii_digit cs")
    case True
    with size_tail_keep [of cs] have "filter keep_size cs = cs"
      by (simp add: filter_keep)
    moreover have "keep_size 95"
      by (simp add: keep_size_def)
    ultimately show ?thesis
      using True by simp
  next
    case False
    with Cons.prems have "c \<noteq> 10" and "size_fullmatch ascii_digit cs" by auto
    with Cons.IH show ?thesis by simp
  qed
qed

lemma collapse_no_space: "32 \<notin> set s \<Longrightarrow> collapse_ws (\<lambda>c. c = 32) s = s"
  by (induction s) auto

lemma size_fullmatch_dropWhile:
  "size_fullmatch ascii_digit s \<Longrightarrow> size_fullmatch ascii_digit (dropWhile (\<lambda>c. c = 32) s)"
  by (induction s) auto

lemma size_fullmatch_collapse:
  "size_fullmatch ascii_digit s \<Longrightarrow> size_fullmatch ascii_digit (collapse_ws (\<lambda>c. c = 32) s)"
proof (induction "\<lambda>c::nat. c = 32" s rule: collapse_ws.induct)
  case 1
  then show ?case by simp
next
  case (2 c cs)
  show ?case
  proof (cases "c = 32")
    case True
    with "2.prems" have "size_fullmatch ascii_digit cs" by simp
    then have "size_fullmatch ascii_digit (dropWhile (\<lambda>c. c = 32) cs)"
      by (rule size_fullmatch_dropWhile)
    with "2.hyps"(1) [OF True] True show ?thesis by simp
  next
    case False
    show ?thesis
    proof (cases "c = 95 \<and> size_tail ascii_digit cs")
      case True
      with size_tail_keep [of cs] have "collapse_ws (\<lambda>c. c = 32) cs = cs"
        by (simp add: collapse_no_space)
      with True show ?thesis by simp
    next
      case no: False
      with "2.prems" have "c \<noteq> 10" and "size_fullmatch ascii_digit cs" by auto
      with "2.hyps"(2) [OF False] False show ?thesis by simp
    qed
  qed
qed

lemma dropWhile_rev_last:
  "xs \<noteq> [] \<Longrightarrow> \<not> p (last xs) \<Longrightarrow> dropWhile p (rev xs) = rev xs"
  by (cases xs rule: rev_cases) auto

lemma size_fullmatch_strip:
  assumes "size_fullmatch ascii_digit s"
  shows "size_fullmatch ascii_digit (strip (\<lambda>c. c = 32) s)"
proof -
  define a where "a = dropWhile (\<lambda>c. c = 32) s"
  from assms have f: "size_fullmatch ascii_digit a"
    unfolding a_def by (rule size_fullmatch_dropWhile)
  then have "a \<noteq> []" and "last a \<noteq> 32"
    using size_fullmatch_last by blast+
  then have "dropWhile (\<lambda>c. c = 32) (rev a) = rev a"
    by (intro dropWhile_rev_last) auto
  then have "strip (\<lambda>c. c = 32) s = a"
    by (simp add: strip_def a_def)
  with f show ?thesis by simp
qed

lemma sub_x_digits: "list_all ascii_digit s \<Longrightarrow> sub_x ascii_digit (\<lambda>c. c = 32) s = s"
proof (induction s)
  case Nil
  show ?case by simp
next
  case (Cons c cs)
  then have "match_x ascii_digit (\<lambda>c. c = 32) cs = None"
    using class_disjoint(3,4)
    by (cases cs) (auto simp: match_x_ascii simp del: match_x.simps(2))
  with Cons show ?case by simp
qed

lemma sub_x_size_tail:
  "digits_x_digits ascii_digit cs \<Longrightarrow> ascii_digit c \<Longrightarrow>
   size_tail ascii_digit (sub_x ascii_digit (\<lambda>c. c = 32) (c # cs))"
proof (induction cs arbitrary: c)
  case Nil
  then show ?case by simp
next
  case (Cons e es)
  show ?case
  proof (cases "is_x e \<and> all_digits ascii_digit es")
    case True
    then obtain f fs where fs: "es = f # fs" and f: "ascii_digit f"
      and l: "list_all ascii_digit fs"
      by (cases es) (auto simp: all_digits_def)
    from True have e32: "e \<noteq> 32"
      by (auto simp: is_x_def)
    from f have "f \<noteq> 32"
      by (rule class_disjoint(4))
    with True f e32 fs have "match_x ascii_digit (\<lambda>c. c = 32) (e # es) = Some (f, fs)"
      by (simp add: match_x_ascii match_sp_digit_ascii del: match_x.simps(2) match_sp_digit.simps(2))
    with Cons.prems(2) sub_x_digits [OF l] f l show ?thesis
      by (simp add: all_digits_def is_x_def del: match_x.simps(2))
  next
    case False
    with Cons.prems(1) have d: "ascii_digit e" and r: "digits_x_digits ascii_digit es"
      by auto
    from d have n: "match_x ascii_digit (\<lambda>c. c = 32) (e # es) = None"
      using class_disjoint(3,4) by (auto simp: match_x_ascii simp del: match_x.simps(2))
    have step: "sub_x ascii_digit (\<lambda>c. c = 32) (c # e # es)
                = c # sub_x ascii_digit (\<lambda>c. c = 32) (e # es)"
      by (subst sub_x.simps(2)) (simp add: Cons.prems(2) n del: match_x.simps(2) sub_x.simps(2))
    from Cons.IH [OF r d]
    have t: "size_tail ascii_digit (sub_x ascii_digit (\<lambda>c. c = 32) (e # es))" .
    obtain t' where t': "sub_x ascii_digit (\<lambda>c. c = 32) (e # es) = e # t'"
      using sub_x_Cons_hd by blast
    from t t' have "digits_x_digits ascii_digit t'"
      by simp
    with step t' Cons.prems(2) d show ?thesis
      by simp
  qed
qed

lemma size_fullmatch_suffix:
  "size_fullmatch d (p @ r) \<Longrightarrow> 95 \<notin> set p \<Longrightarrow> size_fullmatch d r"
  by (induction p) auto

lemma size_fullmatch_sub_x:
  "size_fullmatch ascii_digit s \<Longrightarrow>
   size_fullmatch ascii_digit (sub_x ascii_digit (\<lambda>c. c = 32) s)"
proof (induction ascii_digit "\<lambda>c::nat. c = 32" s rule: sub_x.induct)
  case 1
  then show ?case by simp
next
  case (2 c cs)
  show ?case
  proof (cases "c = 95 \<and> size_tail ascii_digit cs")
    case True
    then obtain e es where es: "cs = e # es" and e: "ascii_digit e"
      and r: "digits_x_digits ascii_digit es"
      by (cases cs) auto
    from sub_x_size_tail [OF r e] True es show ?thesis
      by (simp add: class_facts del: sub_x.simps(2))
         (simp add: class_facts)
  next
    case False
    with "2.prems" have c10: "c \<noteq> 10" and f: "size_fullmatch ascii_digit cs" by auto
    show ?thesis
    proof (cases "ascii_digit c")
      case True
      show ?thesis
      proof (cases "match_x ascii_digit (\<lambda>c. c = 32) cs")
        case None
        with True c10 "2.hyps"(1) [OF True None f] show ?thesis by simp
      next
        case (Some er)
        obtain e r where er: "er = (e, r)" by (cases er)
        with Some obtain p where p: "cs = p @ e # r" and e: "ascii_digit e"
          and p95: "95 \<notin> set p"
          using match_x_shape by blast
        from e have "e \<noteq> 95" "e \<noteq> 10"
          by (auto simp: ascii_digit_def)
        with p p95 f have "size_fullmatch ascii_digit r"
          using size_fullmatch_suffix [of ascii_digit "p @ [e]" r] by simp
        from "2.hyps"(2) [OF True Some er [symmetric] this] True Some er c10 \<open>e \<noteq> 10\<close>
        show ?thesis by simp
      qed
    next
      case nd: False
      with c10 "2.hyps"(3) [OF nd f] show ?thesis by simp
    qed
  qed
qed

lemma size_fullmatch_underscore: "size_fullmatch d s \<Longrightarrow> 95 \<in> set s"
  by (induction s) auto

subsection \<open>The rules on their own output\<close>

text \<open>Lines 73 to 78 and lines 68, 69 with the ASCII classes.\<close>

definition produto_ascii :: "ustr \<Rightarrow> ustr" where
  "produto_ascii w =
     strip (\<lambda>c. c = 32) (sub_x ascii_digit (\<lambda>c. c = 32)
       (sub_pair ascii_digit ascii_letter (sub_pair ascii_letter ascii_digit
          (sub_pair ascii_lower ascii_upper
             (strip (\<lambda>c. c = 32) (collapse_ws (\<lambda>c. c = 32) w))))))"

definition tamanho_ascii :: "ustr \<Rightarrow> ustr" where
  "tamanho_ascii w =
     sub_x ascii_digit (\<lambda>c. c = 32) (strip (\<lambda>c. c = 32) (collapse_ws (\<lambda>c. c = 32) w))"

lemma keep_sub:
  "keep_prod c \<Longrightarrow> keep_cli c" "keep_size c \<Longrightarrow> keep_cli c" "keep_prod c \<Longrightarrow> c \<noteq> 95"
  by (auto simp: keep_prod_def keep_size_def keep_cli_def is_x_def ascii_letter_def
      ascii_upper_def ascii_lower_def ascii_digit_def)

lemma list_all_sub: "list_all P s \<Longrightarrow> (\<And>c. P c \<Longrightarrow> Q c) \<Longrightarrow> list_all Q s"
  by (auto simp: list_all_iff)

lemma closed:
  assumes "list_all K s" and "K 32" and "K 120"
  shows "list_all K (collapse_ws sp s)" and "list_all K (strip sp s)"
    and "list_all K (sub_pair P Q s)" and "list_all K (sub_x d sp s)"
proof -
  from assms(1) have s: "\<And>c. c \<in> set s \<Longrightarrow> K c"
    by (simp add: list_all_iff)
  show "list_all K (collapse_ws sp s)"
    using collapse_ws_set [of sp s] assms(2) s by (auto simp: list_all_iff)
  show "list_all K (strip sp s)"
    using strip_set [of sp s] s by (auto simp: list_all_iff)
  show "list_all K (sub_pair P Q s)"
    using sub_pair_set [of P Q s] assms(2) s by (auto simp: list_all_iff)
  show "list_all K (sub_x d sp s)"
    using sub_x_set [of d sp s] assms(3) s by (auto simp: list_all_iff)
qed

lemma keep_prod_closed:
  assumes "list_all keep_prod s"
  shows "list_all keep_prod (collapse_ws sp s)" and "list_all keep_prod (strip sp s)"
    and "list_all keep_prod (sub_pair P Q s)" and "list_all keep_prod (sub_x d sp s)"
proof -
  have k: "keep_prod 32" "keep_prod 120"
    by (simp_all add: keep_prod_def ascii_letter_def ascii_lower_def)
  show "list_all keep_prod (collapse_ws sp s)" "list_all keep_prod (strip sp s)"
    "list_all keep_prod (sub_pair P Q s)" "list_all keep_prod (sub_x d sp s)"
    using closed [OF assms k] by blast+
qed

lemma keep_size_closed:
  assumes "list_all keep_size s"
  shows "list_all keep_size (collapse_ws sp s)" and "list_all keep_size (strip sp s)"
    and "list_all keep_size (sub_x d sp s)"
proof -
  have k: "keep_size 32" "keep_size 120"
    by (simp_all add: keep_size_def ascii_letter_def ascii_lower_def)
  show "list_all keep_size (collapse_ws sp s)" "list_all keep_size (strip sp s)"
    "list_all keep_size (sub_x d sp s)"
    using closed [OF assms k] by blast+
qed

lemma regra_cliente_ascii':
  assumes "ascii_exact L"
  shows "regra_cliente L t = cliente_ascii (filter keep_cli (sub_us (re_space L) t))"
proof -
  have "list_all keep_cli (filter keep_cli (sub_us (re_space L) t))"
    by (simp add: list_all_iff)
  from regra_cliente_ascii [OF assms this] show ?thesis
    by (simp add: regra_cliente_def Let_def)
qed

lemma regra_produto_ascii:
  assumes "ascii_exact L"
  shows "regra_produto L t
         = produto_ascii (filter keep_prod (map (\<lambda>c. if c = 95 then 32 else c) t))"
proof -
  define w where "w = filter keep_prod (map (\<lambda>c. if c = 95 then 32 else c) t)"
  have "list_all keep_prod w"
    by (simp add: w_def list_all_iff)
  then have k: "list_all keep_cli w"
    by (rule list_all_sub) (rule keep_sub)
  have "strip (re_space L) (sub_x (re_digit L) (re_space L)
          (sub_pair (re_digit L) ascii_letter (sub_pair ascii_letter (re_digit L)
             (sub_pair ascii_lower ascii_upper
                (strip (re_space L) (collapse_ws (re_space L) w))))))
        = produto_ascii w"
    using assms k by (simp add: produto_ascii_def ascii_classes keep_cli_closed)
  then show ?thesis
    by (simp add: regra_produto_def Let_def w_def)
qed

lemma regra_tamanho_ascii:
  assumes "ascii_exact L"
  shows "regra_tamanho L t = tamanho_ascii (filter keep_size t)"
proof -
  define w where "w = filter keep_size t"
  have "list_all keep_size w"
    by (simp add: w_def list_all_iff)
  then have k: "list_all keep_cli w"
    by (rule list_all_sub) (rule keep_sub)
  have "sub_x (re_digit L) (re_space L) (strip (re_space L) (collapse_ws (re_space L) w))
        = tamanho_ascii w"
    using assms k by (simp add: tamanho_ascii_def ascii_classes keep_cli_closed)
  then show ?thesis
    by (simp add: regra_tamanho_def w_def)
qed

lemma tamanho_ascii_fixed: "tamanho_ascii (tamanho_ascii w) = tamanho_ascii w"
proof -
  define a where "a = strip (\<lambda>c. c = 32) (collapse_ws (\<lambda>c. c = 32) w)"
  define y where "y = sub_x ascii_digit (\<lambda>c. c = 32) a"
  have a1: "no_pair (\<lambda>c. c = 32) (\<lambda>c. c = 32) a"
    unfolding a_def by (intro strip_keeps collapse_single)
  have a2: "trimmed a"
    unfolding a_def by (rule strip_trimmed)
  have y1: "no_pair (\<lambda>c. c = 32) (\<lambda>c. c = 32) y"
    unfolding y_def using a1 by (intro sub_x_keeps) auto
  have y2: "trimmed y"
    unfolding y_def using a2 by (rule sub_x_trimmed)
  have "sub_x ascii_digit (\<lambda>c. c = 32) y = y"
    unfolding y_def by (rule sub_x_idem)
  then have "tamanho_ascii y = y"
    by (simp add: tamanho_ascii_def collapse_fixed [OF y1] strip_fixed [OF y2])
  then show ?thesis
    by (simp add: tamanho_ascii_def y_def a_def)
qed

lemma produto_ascii_fixed: "produto_ascii (produto_ascii w) = produto_ascii w"
proof -
  define a where "a = strip (\<lambda>c. c = 32) (collapse_ws (\<lambda>c. c = 32) w)"
  define b where "b = sub_pair ascii_lower ascii_upper a"
  define c where "c = sub_pair ascii_letter ascii_digit b"
  define e where "e = sub_pair ascii_digit ascii_letter c"
  define f where "f = sub_x ascii_digit (\<lambda>c. c = 32) e"
  have a1: "no_pair (\<lambda>c. c = 32) (\<lambda>c. c = 32) a"
    unfolding a_def by (intro strip_keeps collapse_single)
  have a2: "trimmed a"
    unfolding a_def by (rule strip_trimmed)
  have b1: "no_pair (\<lambda>c. c = 32) (\<lambda>c. c = 32) b"
    unfolding b_def using a1 by (intro sub_pair_keeps) (auto simp: class_facts)
  have b2: "trimmed b"
    unfolding b_def using a2 by (rule sub_pair_trimmed)
  have b3: "no_pair ascii_lower ascii_upper b"
    unfolding b_def by (intro sub_pair_splits) (auto simp: class_facts dest: class_disjoint)
  have c1: "no_pair (\<lambda>c. c = 32) (\<lambda>c. c = 32) c"
    unfolding c_def using b1 by (intro sub_pair_keeps) (auto dest: class_disjoint)
  have c2: "trimmed c"
    unfolding c_def using b2 by (rule sub_pair_trimmed)
  have c3: "no_pair ascii_lower ascii_upper c"
    unfolding c_def using b3 by (intro sub_pair_keeps) (auto simp: class_facts)
  have c4: "no_pair ascii_letter ascii_digit c"
    unfolding c_def by (intro sub_pair_splits) (auto simp: class_facts dest: class_disjoint)
  have e1: "no_pair (\<lambda>c. c = 32) (\<lambda>c. c = 32) e"
    unfolding e_def using c1 by (intro sub_pair_keeps) (auto dest: class_disjoint)
  have e2: "trimmed e"
    unfolding e_def using c2 by (rule sub_pair_trimmed)
  have e3: "no_pair ascii_lower ascii_upper e"
    unfolding e_def using c3 by (intro sub_pair_keeps) (auto simp: class_facts)
  have e4: "no_pair ascii_letter ascii_digit e"
    unfolding e_def using c4 by (intro sub_pair_keeps) (auto simp: class_facts)
  have e5: "no_pair ascii_digit ascii_letter e"
    unfolding e_def by (intro sub_pair_splits) (auto simp: class_facts dest: class_disjoint)
  have f1: "no_pair (\<lambda>c. c = 32) (\<lambda>c. c = 32) f"
    unfolding f_def using e1 by (intro sub_x_keeps) auto
  have f2: "trimmed f"
    unfolding f_def using e2 by (rule sub_x_trimmed)
  have f3: "no_pair ascii_lower ascii_upper f"
    unfolding f_def using e3
    by (intro sub_x_keeps) (auto simp: class_facts ascii_digit_def ascii_lower_def ascii_upper_def)
  have yf: "produto_ascii w = f"
    unfolding produto_ascii_def using strip_fixed [OF f2]
    by (simp add: f_def e_def c_def b_def a_def)
  have "sub_pair ascii_digit ascii_letter (sub_pair ascii_letter ascii_digit f) = unjoin e"
    unfolding f_def using e4 e5 by (rule unjoin_split)
  moreover have "sub_x ascii_digit (\<lambda>c. c = 32) (unjoin e) = f"
    unfolding f_def by (rule sub_x_unjoin)
  ultimately have "produto_ascii f = f"
    by (simp add: produto_ascii_def collapse_fixed [OF f1] strip_fixed [OF f2]
        sub_pair_fixed [OF f3])
  with yf show ?thesis by simp
qed

lemma strip_never: "(\<And>c. c \<in> set s \<Longrightarrow> \<not> sp c) \<Longrightarrow> strip sp s = s"
proof -
  assume a: "\<And>c. c \<in> set s \<Longrightarrow> \<not> sp c"
  then have "strip sp s = strip (\<lambda>c. False) s"
    by (intro strip_cong) simp
  then show ?thesis
    by (simp add: strip_def)
qed

lemma keep_price_classes:
  assumes "ascii_exact L" and "keep_price c"
  shows "\<not> re_space L c" and "c < 128" and "c \<noteq> 44"
proof -
  from assms(2) show c: "c < 128" and "c \<noteq> 44"
    by (auto simp: keep_price_def ascii_digit_def)
  with assms(1) have "re_space L c = ascii_space c"
    by (simp add: ascii_exact_def)
  with assms(2) show "\<not> re_space L c"
    by (auto simp: keep_price_def ascii_digit_def ascii_space_def)
qed

lemma regra_preco_ascii:
  assumes "ascii_exact L"
  shows "regra_preco L t = filter keep_price t"
  unfolding regra_preco_def
  by (rule strip_never) (simp add: keep_price_classes [OF assms])


lemma dropWhile_mem: "c \<in> set s \<Longrightarrow> \<not> p c \<Longrightarrow> c \<in> set (dropWhile p s)"
  by (induction s) auto

lemma collapse_ws_mem: "c \<in> set s \<Longrightarrow> \<not> sp c \<Longrightarrow> c \<in> set (collapse_ws sp s)"
proof (induction sp s rule: collapse_ws.induct)
  case (1 sp)
  then show ?case by simp
next
  case (2 sp a cs)
  show ?case
  proof (cases "sp a")
    case True
    with "2.prems" have "c \<in> set cs" by auto
    then have "c \<in> set (dropWhile sp cs)"
      using "2.prems"(2) by (rule dropWhile_mem)
    with "2.IH"(1) [OF True _ "2.prems"(2)] True show ?thesis by simp
  next
    case False
    with "2.IH"(2) [OF False _ "2.prems"(2)] "2.prems"(1) show ?thesis by auto
  qed
qed

lemma strip_mem: "c \<in> set s \<Longrightarrow> \<not> sp c \<Longrightarrow> c \<in> set (strip sp s)"
  by (simp add: strip_def dropWhile_mem)

lemma sub_x_underscore:
  "95 \<in> set s \<Longrightarrow> 95 \<in> set (sub_x ascii_digit (\<lambda>c. c = 32) s)"
proof (induction ascii_digit "\<lambda>c::nat. c = 32" s rule: sub_x.induct)
  case 1
  then show ?case by simp
next
  case (2 c cs)
  show ?case
  proof (cases "ascii_digit c")
    case True
    then have c95: "c \<noteq> 95"
      by (auto simp: ascii_digit_def)
    with "2.prems" have m: "95 \<in> set cs" by simp
    show ?thesis
    proof (cases "match_x ascii_digit (\<lambda>c. c = 32) cs")
      case None
      with True "2.hyps"(1) [OF True None m] show ?thesis by simp
    next
      case (Some er)
      obtain e r where er: "er = (e, r)" by (cases er)
      with Some obtain p where p: "cs = p @ e # r" and e: "ascii_digit e"
        and p95: "95 \<notin> set p"
        using match_x_shape by blast
      from e have "e \<noteq> 95"
        by (auto simp: ascii_digit_def)
      with p p95 m have "95 \<in> set r" by auto
      from "2.hyps"(2) [OF True Some er [symmetric] this] True Some er show ?thesis
        by simp
    qed
  next
    case False
    show ?thesis
    proof (cases "c = 95")
      case True
      with False show ?thesis by simp
    next
      case c: False
      with "2.prems" have "95 \<in> set cs" by simp
      with False "2.hyps"(3) [OF False] show ?thesis by simp
    qed
  qed
qed

lemma tamanho_ascii_underscore: "95 \<in> set w \<Longrightarrow> 95 \<in> set (tamanho_ascii w)"
  unfolding tamanho_ascii_def
  by (intro sub_x_underscore strip_mem collapse_ws_mem) simp_all

lemma ascii_texto:
  assumes "ascii_exact L" and "list_all keep_cli y"
  shows "preparar L y = y"
proof -
  from assms(2) have "list_all (\<lambda>c. c < 128) y" and "44 \<notin> set y"
    using keep_cli_classes(3,4) [OF assms(1)] by (auto simp: list_all_iff)
  then show ?thesis
    by (intro preparar_fixed assms(1))
qed

lemma cliente_fixed:
  assumes ex: "ascii_exact L"
  shows "preparar L (regra_cliente L t) = regra_cliente L t
         \<and> regra_cliente L (regra_cliente L t) = regra_cliente L t"
proof -
  define y where "y = regra_cliente L t"
  have y: "y = cliente_ascii (filter keep_cli (sub_us (re_space L) t))"
    by (simp add: y_def regra_cliente_ascii' [OF ex])
  have w: "list_all keep_cli (filter keep_cli (sub_us (re_space L) t))"
    by (simp add: list_all_iff)
  have k: "list_all keep_cli y"
    unfolding y by (rule cliente_ascii_shape(1) [OF w])
  have p: "preparar L y = y"
    using ex k by (rule ascii_texto)
  have "sub_us (re_space L) y = y"
    using ascii_classes(5) [OF ex k] cliente_ascii_fixed(2) [OF w] by (simp add: y)
  then have "regra_cliente L y = y"
    using cliente_ascii_fixed(1) [OF w] k
    by (simp add: regra_cliente_ascii' [OF ex] filter_keep y)
  with p show ?thesis
    by (simp add: y_def)
qed

lemma preco_fixed:
  assumes ex: "ascii_exact L"
  shows "preparar L (regra_preco L t) = regra_preco L t
         \<and> regra_preco L (regra_preco L t) = regra_preco L t"
proof -
  define y where "y = regra_preco L t"
  have y: "y = filter keep_price t"
    by (simp add: y_def regra_preco_ascii [OF ex])
  then have k: "list_all keep_price y"
    by (simp add: list_all_iff)
  then have "list_all (\<lambda>c. c < 128) y" and "44 \<notin> set y"
    using keep_price_classes(2,3) [OF ex] by (auto simp: list_all_iff)
  then have p: "preparar L y = y"
    by (intro preparar_fixed ex)
  from k have "regra_preco L y = y"
    by (simp add: regra_preco_ascii [OF ex] filter_keep)
  with p show ?thesis
    by (simp add: y_def)
qed

lemma produto_fixed:
  assumes ex: "ascii_exact L"
  shows "preparar L (regra_produto L t) = regra_produto L t
         \<and> regra_produto L (regra_produto L t) = regra_produto L t
         \<and> 95 \<notin> set (regra_produto L t)"
proof -
  define w where "w = filter keep_prod (map (\<lambda>c. if c = 95 then 32 else c) t)"
  define y where "y = regra_produto L t"
  have y: "y = produto_ascii w"
    by (simp add: y_def regra_produto_ascii [OF ex] w_def)
  have w: "list_all keep_prod w"
    by (simp add: w_def list_all_iff)
  have kp: "list_all keep_prod y"
    unfolding y produto_ascii_def by (intro keep_prod_closed w)
  then have k: "list_all keep_cli y"
    by (rule list_all_sub) (rule keep_sub)
  have p: "preparar L y = y"
    using ex k by (rule ascii_texto)
  from kp have u: "95 \<notin> set y"
    using keep_sub(3) by (auto simp: list_all_iff)
  then have "map (\<lambda>c. if c = 95 then 32 else c) y = y"
    by (induction y) auto
  with kp have "regra_produto L y = y"
    by (simp add: regra_produto_ascii [OF ex] filter_keep y produto_ascii_fixed)
  with p u show ?thesis
    by (simp add: y_def)
qed

lemma tamanho_fixed:
  assumes ex: "ascii_exact L"
  shows "preparar L (regra_tamanho L t) = regra_tamanho L t
         \<and> regra_tamanho L (regra_tamanho L t) = regra_tamanho L t
         \<and> (95 \<in> set t \<longrightarrow> 95 \<in> set (regra_tamanho L t))"
proof -
  define y where "y = regra_tamanho L t"
  have y: "y = tamanho_ascii (filter keep_size t)"
    by (simp add: y_def regra_tamanho_ascii [OF ex])
  have w: "list_all keep_size (filter keep_size t)"
    by (simp add: list_all_iff)
  have ks: "list_all keep_size y"
    unfolding y tamanho_ascii_def by (intro keep_size_closed w)
  then have k: "list_all keep_cli y"
    by (rule list_all_sub) (rule keep_sub)
  have p: "preparar L y = y"
    using ex k by (rule ascii_texto)
  from ks have r: "regra_tamanho L y = y"
    by (simp add: regra_tamanho_ascii [OF ex] filter_keep y tamanho_ascii_fixed)
  have "95 \<in> set y" if "95 \<in> set t"
  proof -
    have "keep_size 95"
      by (simp add: keep_size_def)
    with that have "95 \<in> set (filter keep_size t)" by simp
    then show ?thesis
      unfolding y by (rule tamanho_ascii_underscore)
  qed
  with p r show ?thesis
    by (simp add: y_def)
qed

lemma tamanho_ascii_digits:
  assumes ex: "ascii_exact L"
    and dig: "list_all (\<lambda>c. re_digit L c \<longrightarrow> c < 128) t"
    and size: "size_fullmatch (re_digit L) t"
  shows "size_fullmatch (re_digit L) (regra_tamanho L t)"
proof -
  define y where "y = regra_tamanho L t"
  have y: "y = tamanho_ascii (filter keep_size t)"
    by (simp add: y_def regra_tamanho_ascii [OF ex])
  have w: "list_all keep_size (filter keep_size t)"
    by (simp add: list_all_iff)
  have ks: "list_all keep_size y"
    unfolding y tamanho_ascii_def by (intro keep_size_closed w)
  then have k: "list_all keep_cli y"
    by (rule list_all_sub) (rule keep_sub)
  have "\<And>c. c \<in> set t \<Longrightarrow> re_digit L c = ascii_digit c"
  proof -
    fix c assume "c \<in> set t"
    with dig have i: "re_digit L c \<longrightarrow> c < 128"
      by (simp add: list_all_iff)
    show "re_digit L c = ascii_digit c"
    proof (cases "c < 128")
      case True
      with ex show ?thesis by (simp add: ascii_exact_def)
    next
      case False
      with i show ?thesis by (auto simp: ascii_digit_def)
    qed
  qed
  then have "size_fullmatch (re_digit L) t = size_fullmatch ascii_digit t"
    by (rule size_fullmatch_cong)
  with size have "size_fullmatch ascii_digit t" by simp
  then have "size_fullmatch ascii_digit y"
    unfolding y tamanho_ascii_def
    by (intro size_fullmatch_sub_x size_fullmatch_strip size_fullmatch_collapse
        size_fullmatch_filter)
  then show ?thesis
    using ascii_classes(7) [OF ex k] by (simp add: y_def)
qed

text \<open>
  C4 (as amended).  Under a library that is exact on ASCII, \<open>limpar_texto\<close> is
  idempotent on a text exactly when the text does not take the size rule (context
  \<open>produtos\<close>, a column that is not the price column, a prepared text that matches the
  size pattern of line 66) or the result of the size rule still matches the size
  pattern.  So cleaning the cleaned text gives the cleaned text for every text of a
  customer table, every text of the price column and every product text that misses
  the size pattern.  A text that takes the size rule keeps matching the pattern
  whenever its prepared form (after lines 57 to 59) has no decimal digit outside ASCII.
\<close>

theorem limpar_texto_idempotent:
  assumes ex: "ascii_exact L"
  shows "(limpar_texto L (limpar_texto L (Str x) contexto nome) contexto nome
            = limpar_texto L (Str x) contexto nome)
         = (contexto = lit ''produtos'' \<and> \<not> coluna_preco L nome
              \<and> size_fullmatch (re_digit L) (preparar L x)
            \<longrightarrow> size_fullmatch (re_digit L) (regra_tamanho L (preparar L x)))
       \<and> (list_all (\<lambda>c. re_digit L c \<longrightarrow> c < 128) (preparar L x)
            \<and> size_fullmatch (re_digit L) (preparar L x)
          \<longrightarrow> size_fullmatch (re_digit L) (regra_tamanho L (preparar L x)))"
proof -
  define t where "t = preparar L x"
  define y where "y = aplicar_regras L contexto nome t"
  have l1: "limpar_texto L (Str x) contexto nome = Str y"
    by (simp add: limpar_texto_def y_def t_def)
  have l2: "limpar_texto L (Str y) contexto nome
            = Str (aplicar_regras L contexto nome (preparar L y))"
    by (simp add: limpar_texto_def)
  have goal: "(aplicar_regras L contexto nome (preparar L y) = y)
              = (contexto = lit ''produtos'' \<and> \<not> coluna_preco L nome
                   \<and> size_fullmatch (re_digit L) t
                 \<longrightarrow> size_fullmatch (re_digit L) (regra_tamanho L t))"
  proof (cases "contexto = lit ''produtos'' \<and> \<not> coluna_preco L nome
                  \<and> size_fullmatch (re_digit L) t")
    case True
    then have y: "y = regra_tamanho L t"
      by (simp add: y_def aplicar_regras_def)
    from True have "95 \<in> set t"
      using size_fullmatch_underscore by blast
    with tamanho_fixed [OF ex, of t] y
    have p: "preparar L y = y" and r: "regra_tamanho L y = y" and u: "95 \<in> set y"
      by simp_all
    show ?thesis
    proof (cases "size_fullmatch (re_digit L) y")
      case m: True
      with True p r have "aplicar_regras L contexto nome (preparar L y) = y"
        by (simp add: aplicar_regras_def)
      with m True y show ?thesis by simp
    next
      case m: False
      with True p have "aplicar_regras L contexto nome (preparar L y) = regra_produto L y"
        by (simp add: aplicar_regras_def)
      moreover have "regra_produto L y \<noteq> y"
        using produto_fixed [OF ex, of y] u by metis
      ultimately show ?thesis
        using m True y by simp
    qed
  next
    case False
    have "aplicar_regras L contexto nome (preparar L y) = y"
    proof (cases "contexto = lit ''produtos''")
      case c: False
      then have "y = regra_cliente L t"
        by (simp add: y_def aplicar_regras_def)
      with cliente_fixed [OF ex, of t] c show ?thesis
        by (simp add: aplicar_regras_def)
    next
      case c: True
      show ?thesis
      proof (cases "coluna_preco L nome")
        case preco: True
        with c have "y = regra_preco L t"
          by (simp add: y_def aplicar_regras_def)
        with preco_fixed [OF ex, of t] c preco show ?thesis
          by (simp add: aplicar_regras_def)
      next
        case preco: False
        with c False have nosize: "\<not> size_fullmatch (re_digit L) t" by simp
        with c preco have yy: "y = regra_produto L t"
          by (simp add: y_def aplicar_regras_def)
        with produto_fixed [OF ex, of t]
        have p: "preparar L y = y" and r: "regra_produto L y = y" and u: "95 \<notin> set y"
          by simp_all
        from u have "\<not> size_fullmatch (re_digit L) y"
          using size_fullmatch_underscore by blast
        with c preco p r show ?thesis
          by (simp add: aplicar_regras_def)
      qed
    qed
    with False show ?thesis by blast
  qed
  have d: "list_all (\<lambda>c. re_digit L c \<longrightarrow> c < 128) t \<and> size_fullmatch (re_digit L) t
           \<longrightarrow> size_fullmatch (re_digit L) (regra_tamanho L t)"
    using tamanho_ascii_digits [OF ex] by blast
  from goal d show ?thesis
    by (simp add: l1 l2 t_def)
qed

text \<open>
  Three texts of a product table: one that takes the general rule (\<open>Caf\<close> U+00E9
  \<open>_10 X 20\<close>), one that takes the size rule and whose result still matches the size
  pattern, and one that takes the size rule and whose result does not (the digits
  U+0661 and U+0662 are removed); and a customer text with the digit U+0661.
\<close>

theorem limpar_texto_idempotent_witness:
  "ascii_exact sample
   \<and> \<not> size_fullmatch (re_digit sample)
          (preparar sample [67, 97, 102, 233, 95, 49, 48, 32, 88, 32, 50, 48])
   \<and> limpar_texto sample (Str [67, 97, 102, 233, 95, 49, 48, 32, 88, 32, 50, 48])
        (lit ''produtos'') (Some (lit ''nome''))
       = Str (lit ''Cafe 10x20'')
   \<and> limpar_texto sample (Str (lit ''Cafe 10x20'')) (lit ''produtos'') (Some (lit ''nome''))
       = Str (lit ''Cafe 10x20'')
   \<and> \<not> coluna_preco sample (Some (lit ''nome''))
   \<and> size_fullmatch (re_digit sample) (preparar sample (lit ''cx  1 X 2_10X20''))
   \<and> list_all (\<lambda>c. re_digit sample c \<longrightarrow> c < 128) (preparar sample (lit ''cx  1 X 2_10X20''))
   \<and> size_fullmatch (re_digit sample)
        (regra_tamanho sample (preparar sample (lit ''cx  1 X 2_10X20'')))
   \<and> limpar_texto sample (Str (lit ''cx  1 X 2_10X20'')) (lit ''produtos'') (Some (lit ''nome''))
       = Str (lit ''cx 1x2_10x20'')
   \<and> limpar_texto sample (Str (lit ''cx 1x2_10x20'')) (lit ''produtos'') (Some (lit ''nome''))
       = Str (lit ''cx 1x2_10x20'')
   \<and> size_fullmatch (re_digit sample) (preparar sample [97, 95, 1633, 120, 1634])
   \<and> \<not> size_fullmatch (re_digit sample)
          (regra_tamanho sample (preparar sample [97, 95, 1633, 120, 1634]))
   \<and> limpar_texto sample
        (limpar_texto sample (Str [97, 95, 1633, 120, 1634]) (lit ''produtos'')
           (Some (lit ''nome'')))
        (lit ''produtos'') (Some (lit ''nome''))
       \<noteq> limpar_texto sample (Str [97, 95, 1633, 120, 1634]) (lit ''produtos'')
           (Some (lit ''nome''))
   \<and> limpar_texto sample (Str [97, 1633, 98]) (lit ''clientes'') None = Str (lit ''ab'')
   \<and> limpar_texto sample (Str (lit ''ab'')) (lit ''clientes'') None = Str (lit ''ab'')"
proof -
  have n: "\<not> coluna_preco sample (Some (lit ''nome''))"
    and c: "lit ''clientes'' \<noteq> lit ''produtos''"
    by (simp_all add: run_text run_sample)
  have a: "\<not> size_fullmatch (re_digit sample)
               (preparar sample [67, 97, 102, 233, 95, 49, 48, 32, 88, 32, 50, 48])"
    by (simp add: run_text run_sample)
  have a1: "limpar_texto sample (Str [67, 97, 102, 233, 95, 49, 48, 32, 88, 32, 50, 48])
             (lit ''produtos'') (Some (lit ''nome''))
           = Str (lit ''Cafe 10x20'')"
    by (simp add: run_text run_sample)
  have b: "size_fullmatch (re_digit sample) (preparar sample (lit ''cx  1 X 2_10X20''))"
    by (simp add: run_text run_sample)
  have b1: "list_all (\<lambda>c. re_digit sample c \<longrightarrow> c < 128)
             (preparar sample (lit ''cx  1 X 2_10X20''))"
    by (simp add: run_text run_sample)
  have b2: "limpar_texto sample (Str (lit ''cx  1 X 2_10X20'')) (lit ''produtos'')
             (Some (lit ''nome''))
           = Str (lit ''cx 1x2_10x20'')"
    by (simp add: run_text run_sample)
  have d: "size_fullmatch (re_digit sample) (preparar sample [97, 95, 1633, 120, 1634])"
    by (simp add: run_text run_sample)
  have d1: "\<not> size_fullmatch (re_digit sample)
               (regra_tamanho sample (preparar sample [97, 95, 1633, 120, 1634]))"
    by (simp add: run_text run_sample)
  have e: "limpar_texto sample (Str [97, 1633, 98]) (lit ''clientes'') None = Str (lit ''ab'')"
    by (simp add: run_text run_sample)
  from limpar_texto_idempotent [OF ascii_exact_sample,
      of "[67, 97, 102, 233, 95, 49, 48, 32, 88, 32, 50, 48]" "lit ''produtos''"
      "Some (lit ''nome'')"]
    limpar_texto_idempotent [OF ascii_exact_sample, of "lit ''cx  1 X 2_10X20''"
      "lit ''produtos''" "Some (lit ''nome'')"]
    limpar_texto_idempotent [OF ascii_exact_sample, of "[97, 95, 1633, 120, 1634]"
      "lit ''produtos''" "Some (lit ''nome'')"]
    limpar_texto_idempotent [OF ascii_exact_sample, of "[97, 1633, 98]" "lit ''clientes''" None]
    ascii_exact_sample n c a a1 b b1 b2 d d1 e
  show ?thesis
    by simp
qed

text \<open>
  C4 as stated holds for every text.  With the Arabic-Indic digits U+0661 and U+0662 the
  text \<open>a_\<close> U+0661 \<open>x\<close> U+0662 matches the size pattern, whose class \<open>\d\<close> has every
  decimal digit, and the size rule removes the two digits; the result \<open>a_x\<close> no longer
  matches, and the second pass turns its underscore into a space.
\<close>

theorem unicode_digit_counterexample:
  "limpar_texto sample (Str [97, 95, 1633, 120, 1634]) (lit ''produtos'') (Some (lit ''nome''))
     = Str (lit ''a_x'')
   \<and> limpar_texto sample
        (limpar_texto sample (Str [97, 95, 1633, 120, 1634]) (lit ''produtos'')
           (Some (lit ''nome'')))
        (lit ''produtos'') (Some (lit ''nome''))
     = Str (lit ''a x'')"
  by (simp add: run_text run_sample)

end
